theory Spec2Isabelle
  imports Complex_Main "HOL-Library.Word" "HOL-Library.Monad_Syntax"
begin

unbundle bit_operations_syntax

section \<open>The data model of \<^verbatim>\<open>src/index.ts\<close>\<close>

text \<open>
  A \<^verbatim>\<open>Buffer\<close> is a list of bytes. JavaScript numbers that hold presentation time
  stamps are integers below \<open>2 ^ 34\<close>, exact in a double, and are modelled as \<open>int\<close>;
  numbers that hold seconds are modelled as exact rationals. A completion callback is an
  opaque closure that does not call back into the fragmenter: it is modelled by an
  identifier, and invoking it is recorded by listing the identifier.
\<close>

type_synonym byte = "8 word"
type_synonym buffer = "byte list"
type_synonym callback = nat

text \<open>
  The operator \<^verbatim>\<open>%\<close> of JavaScript truncates: the result has the sign of the dividend.
\<close>

definition js_rem :: "int \<Rightarrow> int \<Rightarrow> int" where
  "js_rem a n = sgn a * (\<bar>a\<bar> mod \<bar>n\<bar>)"

subsection \<open>class PartialSegment\<close>

record PartialSegment =
  beginPTS :: int
  endPTS :: "int option"
  hasIFrame :: bool
  completed :: buffer
  retains :: "buffer list"
  complete_callbacks :: "callback list"

definition new_PartialSegment :: "int \<Rightarrow> bool option \<Rightarrow> PartialSegment" where
  "new_PartialSegment b h =
     \<lparr>beginPTS = b, endPTS = None,
      hasIFrame = (case h of None \<Rightarrow> False | Some v \<Rightarrow> v),
      completed = [], retains = [], complete_callbacks = []\<rparr>"

definition addPacket :: "buffer \<Rightarrow> 'a PartialSegment_scheme \<Rightarrow> 'a PartialSegment_scheme" where
  "addPacket packet p = p\<lparr>retains := retains p @ [packet]\<rparr>"

definition addCallback :: "callback \<Rightarrow> 'a PartialSegment_scheme \<Rightarrow> 'a PartialSegment_scheme" where
  "addCallback cb p = p\<lparr>complete_callbacks := complete_callbacks p @ [cb]\<rparr>"

definition isCompleted :: "'a PartialSegment_scheme \<Rightarrow> bool" where
  "isCompleted p = (endPTS p \<noteq> None)"

text \<open>
  \<^verbatim>\<open>complete\<close> returns the sealed object together with the callbacks it has invoked,
  in the order of invocation.
\<close>

definition PartialSegment_complete ::
  "int \<Rightarrow> 'a PartialSegment_scheme \<Rightarrow> 'a PartialSegment_scheme \<times> callback list" where
  "PartialSegment_complete e p =
     (p\<lparr>endPTS := Some e,
        completed := completed p @ concat (retains p),
        retains := [],
        complete_callbacks := []\<rparr>,
      complete_callbacks p)"

definition getBuffer :: "'a PartialSegment_scheme \<Rightarrow> buffer" where
  "getBuffer p = completed p"

definition getSeconds :: "'a PartialSegment_scheme \<Rightarrow> rat option" where
  "getSeconds p =
     (case endPTS p of
        None \<Rightarrow> None
      | Some e \<Rightarrow> Some (of_int (js_rem (e - beginPTS p + 2 ^ 33) (2 ^ 33)) / 90000))"

definition estimateSeconds :: "int \<Rightarrow> 'a PartialSegment_scheme \<Rightarrow> rat" where
  "estimateSeconds e p = of_int (js_rem (e - beginPTS p + 2 ^ 33) (2 ^ 33)) / 90000"

definition getHasIFrame :: "'a PartialSegment_scheme \<Rightarrow> bool" where
  "getHasIFrame p = hasIFrame p"

text \<open>The calls a client can make on a partial before it is sealed.\<close>

datatype partial_call = AddPacket buffer | AddCallback callback

fun partial_step :: "PartialSegment \<Rightarrow> partial_call \<Rightarrow> PartialSegment" where
  "partial_step p (AddPacket b) = addPacket b p"
| "partial_step p (AddCallback cb) = addCallback cb p"

fun appended :: "partial_call list \<Rightarrow> buffer list" where
  "appended [] = []"
| "appended (AddPacket b # cs) = b # appended cs"
| "appended (AddCallback cb # cs) = appended cs"

fun registered :: "partial_call list \<Rightarrow> callback list" where
  "registered [] = []"
| "registered (AddPacket b # cs) = registered cs"
| "registered (AddCallback cb # cs) = cb # registered cs"

subsection \<open>class Segment\<close>

text \<open>
  Indexing a JavaScript array out of range yields \<^verbatim>\<open>undefined\<close>; calling a method on
  \<^verbatim>\<open>undefined\<close> throws a \<^verbatim>\<open>TypeError\<close>. A function of the source that can throw
  returns an \<open>option\<close>, and \<open>None\<close> is the uncaught \<^verbatim>\<open>TypeError\<close>.
\<close>

definition js_index :: "'a list \<Rightarrow> int \<Rightarrow> 'a option" where
  "js_index xs i = (if 0 \<le> i \<and> i < int (length xs) then Some (xs ! nat i) else None)"

record Segment = PartialSegment +
  parts :: "PartialSegment list"
  programDateTime :: string

definition Segment_newPartial :: "int \<Rightarrow> bool option \<Rightarrow> Segment \<Rightarrow> Segment" where
  "Segment_newPartial b h seg = seg\<lparr>parts := parts seg @ [new_PartialSegment b h]\<rparr>"

text \<open>The constructor reads the wall clock; the reading is the parameter \<open>now\<close>.\<close>

definition new_Segment :: "string \<Rightarrow> int \<Rightarrow> bool option \<Rightarrow> Segment" where
  "new_Segment now b h =
     Segment_newPartial b h
       \<lparr>beginPTS = b, endPTS = None,
        hasIFrame = (case h of None \<Rightarrow> False | Some v \<Rightarrow> v),
        completed = [], retains = [], complete_callbacks = [],
        parts = [], programDateTime = now\<rparr>"

definition Segment_completePartial :: "int \<Rightarrow> Segment \<Rightarrow> Segment \<times> callback list" where
  "Segment_completePartial e seg =
     (if length (parts seg) = 0 then (seg, [])
      else
        let r = PartialSegment_complete e (parts seg ! (length (parts seg) - 1))
        in (seg\<lparr>parts := (parts seg)[length (parts seg) - 1 := fst r]\<rparr>, snd r))"

definition Segment_complete :: "int \<Rightarrow> Segment \<Rightarrow> Segment \<times> callback list" where
  "Segment_complete e seg =
     (let r1 = PartialSegment_complete e seg;
          r2 = Segment_completePartial e (fst r1)
      in (fst r2, snd r1 @ snd r2))"

definition Segment_addPacket :: "buffer \<Rightarrow> Segment \<Rightarrow> Segment option" where
  "Segment_addPacket packet seg =
     (let seg1 = addPacket packet seg in
      case js_index (parts seg1) (int (length (parts seg1)) - 1) of
        None \<Rightarrow> None
      | Some lastPart \<Rightarrow>
          Some (seg1\<lparr>parts := (parts seg1)[length (parts seg1) - 1 := addPacket packet lastPart]\<rparr>))"

definition getLength :: "Segment \<Rightarrow> nat" where
  "getLength seg = length (parts seg)"

definition Segment_getPartial :: "int \<Rightarrow> Segment \<Rightarrow> PartialSegment option" where
  "Segment_getPartial index seg = js_index (parts seg) index"

definition getProgramDateTime :: "Segment \<Rightarrow> string" where
  "getProgramDateTime seg = programDateTime seg"

subsection \<open>The collaborators from \<^verbatim>\<open>arib-mpeg2ts-parser\<close>\<close>

text \<open>
  The package is not part of the repository. Its constants and pure functions are the
  fields of a parameter \<open>X\<close>. Its queues are stateful: what a queue yields after a packet
  has been pushed comes with the packet, as do the header fields that \<^verbatim>\<open>TSPacket\<close>
  reads from it and the wall clock at the time the packet is processed.
\<close>

record lib =
  EXTENDED_HEADER_SIZE :: nat
  BASIC_HEADER_SIZE :: nat
  CRC_SIZE :: nat
  PES_HEADER_SIZE :: nat
  CRC32 :: "buffer \<Rightarrow> nat"
  section_length :: "buffer \<Rightarrow> nat"
  packetize :: "buffer \<Rightarrow> bool \<Rightarrow> bool \<Rightarrow> nat \<Rightarrow> nat \<Rightarrow> nat \<Rightarrow> buffer list"

record ts_packet =
  bytes :: buffer
  pid :: nat
  transport_error_indicator :: bool
  transport_priority :: bool
  transport_scrambling_control :: nat
  assembled :: "buffer list"
  clock :: string

subsection \<open>class TSFragmenter\<close>

text \<open>
  The option \<^verbatim>\<open>length\<close> is a number of segments and is modelled as a natural number, as
  are the media sequence numbers, which start at 0 and are only incremented. The fields
  \<open>fired\<close> and \<open>created\<close> are not in the source: \<open>fired\<close> lists the callbacks invoked
  so far, in order, and \<open>created\<close> counts the executions of the \<^verbatim>\<open>push\<close> in
  \<^verbatim>\<open>M3U8_New_Segment\<close>.
\<close>

record TSFragmenterOptions =
  length_option :: "nat option"
  partTarget :: "rat option"

record TSFragmenter =
  Packet_TransportErrorIndicator :: bool
  Packet_TransportPriority :: bool
  Packet_TransportScramblingControl :: nat
  PAT_lastPAT :: "buffer option"
  PAT_Continuous_Counter :: nat
  PAT_TargetSID :: "nat option"
  PAT_TargetPMTPid :: "nat option"
  PMT_lastPMT :: "buffer option"
  PMT_Continuous_Counter :: nat
  PMT_VideoPid :: "nat option"
  PMT_PCRPid :: "nat option"
  Video_Packets :: "buffer list"
  M3U8_Segments_Length :: nat
  M3U8_Part_Target :: rat
  M3U8_Begin_Sequence_Number :: nat
  M3U8_End_Sequence_Number :: nat
  M3U8_Segments :: "Segment list"
  M3U8_Initial_PAT_Detected :: bool
  M3U8_Initial_PMT_Detected :: bool
  M3U8_Initial_IDR_Detected :: bool
  fired :: "callback list"
  created :: nat

definition new_TSFragmenter :: "'a TSFragmenterOptions_scheme \<Rightarrow> TSFragmenter" where
  "new_TSFragmenter options =
     \<lparr>Packet_TransportErrorIndicator = False,
      Packet_TransportPriority = False,
      Packet_TransportScramblingControl = 0,
      PAT_lastPAT = None,
      PAT_Continuous_Counter = 0,
      PAT_TargetSID = None,
      PAT_TargetPMTPid = None,
      PMT_lastPMT = None,
      PMT_Continuous_Counter = 0,
      PMT_VideoPid = None,
      PMT_PCRPid = None,
      Video_Packets = [],
      M3U8_Segments_Length = (case length_option options of None \<Rightarrow> 3 | Some n \<Rightarrow> n),
      M3U8_Part_Target = (case partTarget options of None \<Rightarrow> 1 | Some t \<Rightarrow> t),
      M3U8_Begin_Sequence_Number = 0,
      M3U8_End_Sequence_Number = 0,
      M3U8_Segments = [],
      M3U8_Initial_PAT_Detected = False,
      M3U8_Initial_PMT_Detected = False,
      M3U8_Initial_IDR_Detected = False,
      fired = [],
      created = 0\<rparr>"

text \<open>The number of segments in the window, as the source computes it.\<close>

definition window_size :: "TSFragmenter \<Rightarrow> int" where
  "window_size s = int (M3U8_End_Sequence_Number s) - int (M3U8_Begin_Sequence_Number s)"

text \<open>\<^verbatim>\<open>xs.forEach(f)\<close> for an \<open>f\<close> that can throw.\<close>

fun forEach :: "('a \<Rightarrow> 's \<Rightarrow> 's option) \<Rightarrow> 'a list \<Rightarrow> 's \<Rightarrow> 's option" where
  "forEach f [] s = Some s"
| "forEach f (x # xs) s = (case f x s of None \<Rightarrow> None | Some s' \<Rightarrow> forEach f xs s')"

definition M3U8_Add_Packet :: "buffer \<Rightarrow> TSFragmenter \<Rightarrow> TSFragmenter option" where
  "M3U8_Add_Packet packet s =
     (let size = window_size s in
      if size \<le> 0 then Some s
      else do {
        lastSegment \<leftarrow> js_index (M3U8_Segments s) (size - 1);
        seg \<leftarrow> Segment_addPacket packet lastSegment;
        Some (s\<lparr>M3U8_Segments := (M3U8_Segments s)[nat (size - 1) := seg]\<rparr>)
      })"

definition M3U8_Add_PAT :: "lib \<Rightarrow> buffer \<Rightarrow> TSFragmenter \<Rightarrow> TSFragmenter option" where
  "M3U8_Add_PAT X PAT s =
     (let packets = packetize X PAT (Packet_TransportErrorIndicator s)
                      (Packet_TransportPriority s) 0 (Packet_TransportScramblingControl s)
                      (PAT_Continuous_Counter s)
      in forEach M3U8_Add_Packet packets
           (s\<lparr>PAT_Continuous_Counter := (PAT_Continuous_Counter s + length packets) AND 0x0F\<rparr>))"

definition M3U8_Add_PMT :: "lib \<Rightarrow> buffer \<Rightarrow> TSFragmenter \<Rightarrow> TSFragmenter option" where
  "M3U8_Add_PMT X PMT s =
     (case PAT_TargetPMTPid s of
        None \<Rightarrow> Some s
      | Some pmt_pid \<Rightarrow>
          if pmt_pid = 0 then Some s
          else
            let packets = packetize X PMT (Packet_TransportErrorIndicator s)
                            (Packet_TransportPriority s) pmt_pid
                            (Packet_TransportScramblingControl s) (PMT_Continuous_Counter s)
            in forEach M3U8_Add_Packet packets
                 (s\<lparr>PMT_Continuous_Counter := (PMT_Continuous_Counter s + length packets) AND 0x0F\<rparr>))"

definition M3U8_Get_Segment :: "int \<Rightarrow> TSFragmenter \<Rightarrow> Segment option" where
  "M3U8_Get_Segment msn s =
     (if msn < int (M3U8_Begin_Sequence_Number s) then None
      else if int (M3U8_End_Sequence_Number s) \<le> msn then None
      else js_index (M3U8_Segments s) (msn - int (M3U8_Begin_Sequence_Number s)))"

definition M3U8_Get_Last_Partial :: "TSFragmenter \<Rightarrow> PartialSegment option option" where
  "M3U8_Get_Last_Partial s =
     (let size = window_size s in
      if size \<le> 0 then Some None
      else do {
        lastSegment \<leftarrow> js_index (M3U8_Segments s) (size - 1);
        Some (Segment_getPartial (int (getLength lastSegment) - 1) lastSegment)
      })"

definition M3U8_New_Partial :: "int \<Rightarrow> TSFragmenter \<Rightarrow> TSFragmenter option" where
  "M3U8_New_Partial b s =
     (let size = window_size s in
      if size \<le> 0 then Some s
      else do {
        lastSegment \<leftarrow> js_index (M3U8_Segments s) (size - 1);
        let r = Segment_completePartial b lastSegment;
        Some (s\<lparr>M3U8_Segments :=
                  (M3U8_Segments s)[nat (size - 1) := Segment_newPartial b None (fst r)],
                fired := fired s @ snd r\<rparr>)
      })"

definition M3U8_New_Segment :: "lib \<Rightarrow> string \<Rightarrow> int \<Rightarrow> TSFragmenter \<Rightarrow> TSFragmenter option" where
  "M3U8_New_Segment X now b s =
     (case PAT_lastPAT s of
        None \<Rightarrow> Some s
      | Some PAT \<Rightarrow>
     (case PMT_lastPMT s of
        None \<Rightarrow> Some s
      | Some PMT \<Rightarrow> do {
          s1 \<leftarrow> (let size = window_size s in
                 if size > 0 then do {
                   lastSegment \<leftarrow> js_index (M3U8_Segments s) (size - 1);
                   let r = Segment_complete b lastSegment;
                   Some (s\<lparr>M3U8_Segments := (M3U8_Segments s)[nat (size - 1) := fst r],
                           fired := fired s @ snd r\<rparr>)
                 } else Some s);
          let s2 = s1\<lparr>M3U8_Segments := M3U8_Segments s1 @ [new_Segment now b (Some True)],
                      M3U8_End_Sequence_Number := M3U8_End_Sequence_Number s1 + 1,
                      created := created s1 + 1\<rparr>;
          let s3 = (if window_size s2 > int (M3U8_Segments_Length s2)
                    then s2\<lparr>M3U8_Segments := tl (M3U8_Segments s2),
                            M3U8_Begin_Sequence_Number := M3U8_Begin_Sequence_Number s2 + 1\<rparr>
                    else s2);
          s4 \<leftarrow> M3U8_Add_PAT X PAT s3;
          M3U8_Add_PMT X PMT s4
        }))"

subsection \<open>Parsing sections and PES payloads\<close>

text \<open>
  A byte read as the operand of a bitwise operator: out of range the read yields
  \<^verbatim>\<open>undefined\<close>, which the operator converts to 0.
\<close>

definition byte_at :: "buffer \<Rightarrow> nat \<Rightarrow> nat" where
  "byte_at buf i = (if i < length buf then unat (buf ! i) else 0)"

text \<open>The loop over the program entries of a PAT, from offset \<open>begin\<close>.\<close>

function PAT_scan :: "lib \<Rightarrow> buffer \<Rightarrow> nat \<Rightarrow> TSFragmenter \<Rightarrow> TSFragmenter" where
  "PAT_scan X PAT begin s =
     (if int begin < int (BASIC_HEADER_SIZE X) + int (section_length X PAT) - int (CRC_SIZE X)
      then
        let program_number = push_bit 8 (byte_at PAT (begin + 0)) OR byte_at PAT (begin + 1);
            program_map_PID =
              push_bit 8 (byte_at PAT (begin + 2) AND 0x1F) OR byte_at PAT (begin + 3)
        in if program_map_PID = 0x10 then PAT_scan X PAT (begin + 4) s
           else PAT_scan X PAT (begin + 4)
                  (if PAT_TargetSID s = Some program_number
                   then s\<lparr>PAT_TargetPMTPid := Some program_map_PID\<rparr>
                   else if PAT_TargetSID s = None \<and> PAT_TargetPMTPid s = None
                   then s\<lparr>PAT_TargetPMTPid := Some program_map_PID\<rparr>
                   else s)
      else s)"
  by pat_completeness auto
termination
  by (relation "measure (\<lambda>(X, PAT, begin, s).
        nat (int (BASIC_HEADER_SIZE X) + int (section_length X PAT) - int (CRC_SIZE X) - int begin))")
     auto

declare PAT_scan.simps [simp del]

text \<open>The loop over the elementary streams of a PMT, from offset \<open>begin\<close>.\<close>

function PMT_scan :: "lib \<Rightarrow> buffer \<Rightarrow> nat \<Rightarrow> TSFragmenter \<Rightarrow> TSFragmenter" where
  "PMT_scan X PMT begin s =
     (if int begin < int (BASIC_HEADER_SIZE X) + int (section_length X PMT) - int (CRC_SIZE X)
      then
        let stream_type = js_index PMT (int begin + 0);
            elementary_PID =
              push_bit 8 (byte_at PMT (begin + 1) AND 0x1F) OR byte_at PMT (begin + 2);
            ES_info_length =
              push_bit 8 (byte_at PMT (begin + 3) AND 0x0F) OR byte_at PMT (begin + 4)
        in PMT_scan X PMT (begin + (5 + ES_info_length))
             (if PMT_VideoPid s = None \<and> stream_type = Some 0x1b
              then s\<lparr>PMT_VideoPid := Some elementary_PID\<rparr>
              else s)
      else s)"
  by pat_completeness auto
termination
  by (relation "measure (\<lambda>(X, PMT, begin, s).
        nat (int (BASIC_HEADER_SIZE X) + int (section_length X PMT) - int (CRC_SIZE X) - int begin))")
     auto

declare PMT_scan.simps [simp del]

text \<open>The presentation time stamp packed in five bytes of the PES header.\<close>

definition PES_pts :: "lib \<Rightarrow> buffer \<Rightarrow> int" where
  "PES_pts X VideoPES =
     (let h = PES_HEADER_SIZE X + 3;
          pts0 = 0;
          pts1 = pts0 * push_bit 3 1 + int (drop_bit 1 (byte_at VideoPES (h + 0) AND 0x0E));
          pts2 = pts1 * push_bit 8 1 + int (drop_bit 0 (byte_at VideoPES (h + 1) AND 0xFF));
          pts3 = pts2 * push_bit 7 1 + int (drop_bit 1 (byte_at VideoPES (h + 2) AND 0xFE));
          pts4 = pts3 * push_bit 8 1 + int (drop_bit 0 (byte_at VideoPES (h + 3) AND 0xFF));
          pts5 = pts4 * push_bit 7 1 + int (drop_bit 1 (byte_at VideoPES (h + 4) AND 0xFE))
      in pts5)"

text \<open>The search for a start code followed by a NAL unit of type 5, from \<open>begin\<close>.\<close>

function NAL_scan :: "buffer \<Rightarrow> nat \<Rightarrow> bool" where
  "NAL_scan VideoPES begin =
     (if begin < length VideoPES then
        if begin + 2 \<ge> length VideoPES then False
        else if VideoPES ! (begin + 0) \<noteq> 0 then NAL_scan VideoPES (begin + 1)
        else if VideoPES ! (begin + 1) \<noteq> 0 then NAL_scan VideoPES (begin + 1)
        else if VideoPES ! (begin + 2) \<noteq> 1 then NAL_scan VideoPES (begin + 1)
        else if begin + 3 \<ge> length VideoPES then False
        else if VideoPES ! (begin + 3) AND 0x1f = 5 then True
        else NAL_scan VideoPES (begin + 4)
      else False)"
  by pat_completeness auto
termination
  by (relation "measure (\<lambda>(VideoPES, begin). length VideoPES - begin)") auto

declare NAL_scan.simps [simp del]

text \<open>
  When the byte \<^verbatim>\<open>PES_header_data_length\<close> is out of range, \<^verbatim>\<open>begin\<close> is
  \<^verbatim>\<open>NaN\<close> and the loop is not entered.
\<close>

definition PES_hasIDR :: "lib \<Rightarrow> buffer \<Rightarrow> bool" where
  "PES_hasIDR X VideoPES =
     (case js_index VideoPES (int (PES_HEADER_SIZE X) + 2) of
        None \<Rightarrow> False
      | Some PES_header_data_length \<Rightarrow>
          NAL_scan VideoPES (PES_HEADER_SIZE X + 2 + unat PES_header_data_length))"

subsection \<open>\<^verbatim>\<open>_write\<close>\<close>

text \<open>The body of the loop over the PAT sections that the section queue yields.\<close>

definition on_PAT :: "lib \<Rightarrow> buffer \<Rightarrow> TSFragmenter \<Rightarrow> TSFragmenter option" where
  "on_PAT X PAT s =
     (if CRC32 X PAT \<noteq> 0 then Some s
      else
        let s1 = s\<lparr>PAT_lastPAT := Some PAT, PAT_TargetPMTPid := None\<rparr>;
            s2 = PAT_scan X PAT (EXTENDED_HEADER_SIZE X) s1;
            s3 = (if \<not> M3U8_Initial_PAT_Detected s2
                  then s2\<lparr>M3U8_Initial_PAT_Detected := True\<rparr> else s2)
        in if M3U8_Initial_IDR_Detected s3 then M3U8_Add_PAT X PAT s3 else Some s3)"

definition on_PMT :: "lib \<Rightarrow> buffer \<Rightarrow> TSFragmenter \<Rightarrow> TSFragmenter option" where
  "on_PMT X PMT s =
     (if CRC32 X PMT \<noteq> 0 then Some s
      else
        let s1 = s\<lparr>PMT_lastPMT := Some PMT, PMT_VideoPid := None\<rparr>;
            PCR_PID = push_bit 8 (byte_at PMT (EXTENDED_HEADER_SIZE X + 0) AND 0x1F)
                        OR byte_at PMT (EXTENDED_HEADER_SIZE X + 1);
            s2 = s1\<lparr>PMT_PCRPid := Some PCR_PID\<rparr>;
            program_info_length =
              push_bit 8 (byte_at PMT (EXTENDED_HEADER_SIZE X + 2) AND 0x0F)
                OR byte_at PMT (EXTENDED_HEADER_SIZE X + 3);
            s3 = PMT_scan X PMT (EXTENDED_HEADER_SIZE X + 4 + program_info_length) s2;
            s4 = (if \<not> M3U8_Initial_PMT_Detected s3
                  then s3\<lparr>M3U8_Initial_PMT_Detected := True\<rparr> else s3)
        in if M3U8_Initial_IDR_Detected s4 then M3U8_Add_PMT X PMT s4 else Some s4)"

text \<open>The part cut on an access unit without IDR, at PTS \<open>pts\<close>.\<close>

definition cut_partial :: "int \<Rightarrow> TSFragmenter \<Rightarrow> TSFragmenter option" where
  "cut_partial pts s =
     do {
       part \<leftarrow> M3U8_Get_Last_Partial s;
       case part of
         None \<Rightarrow> Some s
       | Some lastPart \<Rightarrow>
           let time = estimateSeconds pts lastPart in
           if M3U8_Part_Target s * (85 / 100) < time \<and> time \<le> M3U8_Part_Target s
           then M3U8_New_Partial pts s
           else Some s
     }"

text \<open>The body of the loop over the PES payloads that the PES queue yields.\<close>

definition on_VideoPES :: "lib \<Rightarrow> string \<Rightarrow> buffer \<Rightarrow> TSFragmenter \<Rightarrow> TSFragmenter option" where
  "on_VideoPES X now VideoPES s =
     (let pts = PES_pts X VideoPES;
          hasIDR = PES_hasIDR X VideoPES
      in do {
        s1 \<leftarrow> (if hasIDR
               then M3U8_New_Segment X now pts
                      (if \<not> M3U8_Initial_IDR_Detected s
                       then s\<lparr>M3U8_Initial_IDR_Detected := True\<rparr> else s)
               else Some s);
        if M3U8_Initial_IDR_Detected s1 then do {
          s2 \<leftarrow> (if \<not> hasIDR then cut_partial pts s1 else Some s1);
          s3 \<leftarrow> forEach M3U8_Add_Packet (Video_Packets s2) s2;
          Some (s3\<lparr>Video_Packets := []\<rparr>)
        } else Some s1
      })"

text \<open>The body of the loop over the packets that the packet queue yields.\<close>

definition write_packet :: "lib \<Rightarrow> ts_packet \<Rightarrow> TSFragmenter \<Rightarrow> TSFragmenter option" where
  "write_packet X packet s =
     (let s0 = s\<lparr>Packet_TransportErrorIndicator := transport_error_indicator packet,
                 Packet_TransportPriority := transport_priority packet,
                 Packet_TransportScramblingControl := transport_scrambling_control packet\<rparr>
      in
        if pid packet = 0x00 then forEach (on_PAT X) (assembled packet) s0
        else if Some (pid packet) = PAT_TargetPMTPid s0
          then forEach (on_PMT X) (assembled packet) s0
        else if Some (pid packet) = PMT_VideoPid s0
          then forEach (on_VideoPES X (clock packet)) (assembled packet)
                 (s0\<lparr>Video_Packets := Video_Packets s0 @ [bytes packet]\<rparr>)
        else if Some (pid packet) = PMT_PCRPid s0
          then (if M3U8_Initial_IDR_Detected s0 then M3U8_Add_Packet (bytes packet) s0
                else Some s0)
        else (if M3U8_Initial_IDR_Detected s0 then M3U8_Add_Packet (bytes packet) s0
              else Some s0))"

text \<open>\<^verbatim>\<open>_write\<close> on a chunk that the packet queue frames into \<open>packets\<close>.\<close>

definition TSFragmenter_write :: "lib \<Rightarrow> ts_packet list \<Rightarrow> TSFragmenter \<Rightarrow> TSFragmenter option" where
  "TSFragmenter_write X packets s = forEach (write_packet X) packets s"

subsection \<open>The queries\<close>

definition inRangeSegment :: "int \<Rightarrow> TSFragmenter \<Rightarrow> bool" where
  "inRangeSegment msn s =
     (if msn < int (M3U8_Begin_Sequence_Number s) then False
      else if int (M3U8_End_Sequence_Number s) \<le> msn then False
      else True)"



definition addSegmentCallback :: "int \<Rightarrow> callback \<Rightarrow> TSFragmenter \<Rightarrow> bool \<times> TSFragmenter" where
  "addSegmentCallback msn cb s =
     (case M3U8_Get_Segment msn s of
        None \<Rightarrow> (False, s)
      | Some segment \<Rightarrow>
          (True, s\<lparr>M3U8_Segments :=
                     (M3U8_Segments s)[nat (msn - int (M3U8_Begin_Sequence_Number s))
                                        := addCallback cb segment]\<rparr>))"

definition inRangePartial :: "int \<Rightarrow> int \<Rightarrow> TSFragmenter \<Rightarrow> bool option" where
  "inRangePartial msn part s =
     (if \<not> inRangeSegment msn s then Some False
      else do {
        segment \<leftarrow> js_index (M3U8_Segments s) (msn - int (M3U8_Begin_Sequence_Number s));
        Some (case Segment_getPartial part segment of None \<Rightarrow> False | Some partial \<Rightarrow> True)
      })"

definition M3U8_Get_Partial :: "int \<Rightarrow> int \<Rightarrow> TSFragmenter \<Rightarrow> PartialSegment option option" where
  "M3U8_Get_Partial msn part s =
     do {
       inRange \<leftarrow> inRangePartial msn part s;
       if \<not> inRange then Some None
       else do {
         segment \<leftarrow> js_index (M3U8_Segments s) (msn - int (M3U8_Begin_Sequence_Number s));
         Some (Segment_getPartial part segment)
       }
     }"

definition isFulfilledPartial :: "int \<Rightarrow> int \<Rightarrow> TSFragmenter \<Rightarrow> bool option" where
  "isFulfilledPartial msn part s =
     do {
       partial \<leftarrow> M3U8_Get_Partial msn part s;
       Some (case partial of None \<Rightarrow> True | Some p \<Rightarrow> isCompleted p)
     }"


definition addPartialCallback ::
  "int \<Rightarrow> int \<Rightarrow> callback \<Rightarrow> TSFragmenter \<Rightarrow> (bool \<times> TSFragmenter) option" where
  "addPartialCallback msn part cb s =
     do {
       partial \<leftarrow> M3U8_Get_Partial msn part s;
       case partial of
         None \<Rightarrow> Some (False, s)
       | Some p \<Rightarrow>
           let i = nat (msn - int (M3U8_Begin_Sequence_Number s));
               segment = M3U8_Segments s ! i
           in Some (True,
                 s\<lparr>M3U8_Segments :=
                     (M3U8_Segments s)[i := segment\<lparr>parts := (parts segment)[nat part := addCallback cb p]\<rparr>]\<rparr>)
     }"

subsection \<open>Numbers as text\<close>

text \<open>
  The decimal digits of a natural number, as \<^verbatim>\<open>String(n)\<close> gives them for an integer
  below \<open>10 ^ 21\<close>.
\<close>

definition digit_char :: "nat \<Rightarrow> char" where
  "digit_char d = ''0123456789'' ! d"

function show_nat :: "nat \<Rightarrow> string" where
  "show_nat n = (if n < 10 then [digit_char n] else show_nat (n div 10) @ [digit_char (n mod 10)])"
  by pat_completeness auto
termination
  by (relation "measure id") auto

declare show_nat.simps [simp del]

definition show_int :: "int \<Rightarrow> string" where
  "show_int i = (if i < 0 then ''-'' @ show_nat (nat (- i)) else show_nat (nat i))"

text \<open>
  \<^verbatim>\<open>x.toFixed(f)\<close> for \<open>\<bar>x\<bar> < 10 ^ 21\<close>: the integer \<open>n\<close> nearest to
  \<open>\<bar>x\<bar> * 10 ^ f\<close>, the larger one on a tie, written with \<open>f\<close> digits after the point.
  The source applies it to the double nearest to the rational modelled here.
\<close>

definition toFixed :: "nat \<Rightarrow> rat \<Rightarrow> string" where
  "toFixed f x =
     (let n = nat \<lfloor>\<bar>x\<bar> * 10 ^ f + 1 / 2\<rfloor>;
          m = show_nat n;
          m = (if f \<noteq> 0 \<and> length m \<le> f then replicate (f + 1 - length m) CHR ''0'' @ m else m);
          k = length m;
          m = (if f \<noteq> 0 then take (k - f) m @ ''.'' @ drop (k - f) m else m)
      in (if x < 0 then ''-'' else []) @ m)"

text \<open>
  \<^verbatim>\<open>Number.parseFloat\<close> on a decimal literal: an optional sign, digits, and optionally a
  point and digits. White space, exponents and \<^verbatim>\<open>Infinity\<close> are not modelled.
\<close>

definition is_digit :: "char \<Rightarrow> bool" where
  "is_digit c = (48 \<le> (of_char c :: nat) \<and> (of_char c :: nat) \<le> 57)"

definition digit_value :: "char \<Rightarrow> nat" where
  "digit_value c = of_char c - 48"

definition digits_value :: "string \<Rightarrow> nat" where
  "digits_value ds = foldl (\<lambda>a c. a * 10 + digit_value c) 0 ds"

definition parseFloat :: "string \<Rightarrow> rat" where
  "parseFloat str =
     (let neg = (case str of [] \<Rightarrow> False | c # cs \<Rightarrow> c = CHR ''-'');
          body = (case str of [] \<Rightarrow> []
                  | c # cs \<Rightarrow> if c = CHR ''-'' \<or> c = CHR ''+'' then cs else str);
          ip = takeWhile is_digit body;
          rest = dropWhile is_digit body;
          fp = (case rest of [] \<Rightarrow> []
                | c # cs \<Rightarrow> if c = CHR ''.'' then takeWhile is_digit cs else []);
          v = of_nat (digits_value ip) + of_nat (digits_value fp) / 10 ^ length fp
      in if neg then - v else v)"

subsection \<open>The playlist\<close>

definition newline :: string where
  "newline = [CHR 0x0A]"

definition independent :: "PartialSegment \<Rightarrow> string" where
  "independent part = (if getHasIFrame part then '',INDEPENDENT=YES'' else [])"

text \<open>
  The loop over the partials of a segment, from index \<open>p\<close>; \<open>acc\<close> holds the text and
  \<^verbatim>\<open>extinf\<close>.
\<close>

function manifest_parts ::
  "nat \<Rightarrow> Segment \<Rightarrow> nat \<Rightarrow> string \<times> rat \<Rightarrow> (string \<times> rat) option" where
  "manifest_parts media_sequence segment p acc =
     (if p < getLength segment then
        case Segment_getPartial (int p) segment of
          None \<Rightarrow> Some acc
        | Some part \<Rightarrow>
            if \<not> isCompleted part then
              manifest_parts media_sequence segment (p + 1)
                (fst acc @ ''#EXT-X-PRELOAD-HINT:TYPE=PART,URI='' @ [CHR 0x22] @ ''part?msn=''
                   @ show_nat media_sequence
                   @ ''&part.ts='' @ show_nat p @ [CHR 0x22] @ independent part @ newline,
                 snd acc)
            else
              (case getSeconds part of
                 None \<Rightarrow> None
               | Some seconds \<Rightarrow>
                   manifest_parts media_sequence segment (p + 1)
                     (fst acc @ ''#EXT-X-PART:DURATION='' @ toFixed 3 seconds
                        @ '',URI='' @ [CHR 0x22] @ ''part?msn='' @ show_nat media_sequence
                        @ ''&part='' @ show_nat p @ [CHR 0x22] @ independent part @ newline,
                      snd acc + parseFloat (toFixed 3 seconds)))
      else Some acc)"
  by pat_completeness auto
termination
  by (relation "measure (\<lambda>(media_sequence, segment, p, acc). getLength segment - p)") auto

declare manifest_parts.simps [simp del]

text \<open>The body of the loop over the media sequence numbers of the window.\<close>

definition manifest_segment :: "TSFragmenter \<Rightarrow> nat \<Rightarrow> string \<Rightarrow> string option" where
  "manifest_segment s media_sequence m3u8 =
     do {
       segment \<leftarrow> js_index (M3U8_Segments s)
                    (int media_sequence - int (M3U8_Begin_Sequence_Number s));
       r \<leftarrow> manifest_parts media_sequence segment 0
              (m3u8 @ newline
                 @ ''#EXT-X-PROGRAM-DATE-TIME:'' @ getProgramDateTime segment @ newline, 0);
       Some (if isCompleted segment
             then fst r @ ''#EXTINF:'' @ toFixed 3 (snd r) @ newline
                    @ ''segment?msn='' @ show_nat media_sequence @ newline
             else fst r)
     }"

definition target_step :: "TSFragmenter \<Rightarrow> nat \<Rightarrow> rat \<Rightarrow> rat option" where
  "target_step s media_sequence mx =
     do {
       segment \<leftarrow> js_index (M3U8_Segments s)
                    (int media_sequence - int (M3U8_Begin_Sequence_Number s));
       Some (max mx (case getSeconds segment of None \<Rightarrow> 0 | Some seconds \<Rightarrow> seconds))
     }"

definition getTargetDuration :: "TSFragmenter \<Rightarrow> int option" where
  "getTargetDuration s =
     do {
       mx \<leftarrow> forEach (target_step s)
               [M3U8_Begin_Sequence_Number s ..< M3U8_End_Sequence_Number s] 1;
       Some \<lceil>mx\<rceil>
     }"

definition getManifest :: "TSFragmenter \<Rightarrow> string option" where
  "getManifest s =
     do {
       targetDuration \<leftarrow> getTargetDuration s;
       forEach (manifest_segment s)
         [M3U8_Begin_Sequence_Number s ..< M3U8_End_Sequence_Number s]
         (''#EXTM3U'' @ newline
            @ ''#EXT-X-VERSION:6'' @ newline
            @ ''#EXT-X-TARGETDURATION:'' @ show_int targetDuration @ newline
            @ ''#EXT-X-PART-INF:PART-TARGET='' @ toFixed 3 (M3U8_Part_Target s) @ newline
            @ ''#EXT-X-SERVER-CONTROL:CAN-BLOCK-RELOAD=YES,PART-HOLD-BACK=''
            @ toFixed 3 (M3U8_Part_Target s * 3) @ newline
            @ ''#EXT-X-MEDIA-SEQUENCE:'' @ show_nat (M3U8_Begin_Sequence_Number s) @ newline)
     }"

subsection \<open>Runs\<close>

text \<open>
  The calls that change a fragmenter: \<^verbatim>\<open>_write\<close> and the two registrations. A run is
  a sequence of them, begun on a new fragmenter.
\<close>

datatype call =
    Write "ts_packet list"
  | AddSegmentCallback int callback
  | AddPartialCallback int int callback

fun call_step :: "lib \<Rightarrow> call \<Rightarrow> TSFragmenter \<Rightarrow> TSFragmenter option" where
  "call_step X (Write packets) s = TSFragmenter_write X packets s"
| "call_step X (AddSegmentCallback msn cb) s = Some (snd (addSegmentCallback msn cb s))"
| "call_step X (AddPartialCallback msn part cb) s = map_option snd (addPartialCallback msn part cb s)"

definition run :: "lib \<Rightarrow> call list \<Rightarrow> TSFragmenter \<Rightarrow> TSFragmenter option" where
  "run X calls s = forEach (call_step X) calls s"

subsection \<open>Concrete inputs\<close>

text \<open>
  A collaborator with the constants of ISO 13818-1, a checksum that accepts every
  section, and a packetizer that puts a section in one packet, for evaluating the
  functions above on concrete streams.
\<close>

definition X0 :: lib where
  "X0 = \<lparr>EXTENDED_HEADER_SIZE = 8, BASIC_HEADER_SIZE = 3, CRC_SIZE = 4, PES_HEADER_SIZE = 6,
          CRC32 = (\<lambda>sec. 0),
          section_length = (\<lambda>sec. push_bit 8 (byte_at sec 1 AND 0x0F) OR byte_at sec 2),
          packetize = (\<lambda>sec tei tp pid tsc cc. [sec])\<rparr>"

text \<open>A PAT with the program 1 on PID \<open>0x100\<close>, and its PMT with AVC video on PID \<open>0x101\<close>.\<close>

definition pat0 :: buffer where
  "pat0 = [0x00, 0xB0, 0x0D, 0, 1, 0xC1, 0, 0, 0x00, 0x01, 0xE1, 0x00, 0, 0, 0, 0]"

definition pmt0 :: buffer where
  "pmt0 = [0x02, 0xB0, 0x12, 0, 1, 0xC1, 0, 0, 0xE1, 0x01, 0xF0, 0x00,
           0x1b, 0xE1, 0x01, 0xF0, 0x00, 0, 0, 0, 0]"

text \<open>A video PES payload with the PTS \<open>t\<close>, holding one NAL unit: an IDR slice or not.\<close>

definition pes :: "int \<Rightarrow> bool \<Rightarrow> buffer" where
  "pes t idr =
     [0, 0, 1, 0xE0, 0, 0, 0x80, 0x80, 5,
      word_of_int (0x21 OR push_bit 1 (drop_bit 30 t AND 7)),
      word_of_int (drop_bit 22 t AND 0xFF),
      word_of_int (1 OR push_bit 1 (drop_bit 15 t AND 0x7F)),
      word_of_int (drop_bit 7 t AND 0xFF),
      word_of_int (1 OR push_bit 1 (t AND 0x7F)),
      0, 0, 1, (if idr then 0x65 else 0x41), 0xAA]"

definition pkt :: "nat \<Rightarrow> buffer \<Rightarrow> buffer list \<Rightarrow> ts_packet" where
  "pkt p b a =
     \<lparr>bytes = b, pid = p, transport_error_indicator = False, transport_priority = False,
      transport_scrambling_control = 0, assembled = a, clock = ''2020-01-01T00:00:00.000Z''\<rparr>"

definition options0 :: TSFragmenterOptions where
  "options0 = \<lparr>length_option = None, partTarget = None\<rparr>"

subsection \<open>Well-formed windows\<close>

text \<open>
  The window that every run maintains: as many segments as the sequence numbers say,
  every segment but the last sealed with all its partials, the last segment open with
  only its last partial open, every PTS in the 33-bit domain, and nothing in the buffer
  of an open partial or segment.
\<close>

definition pts_domain :: "int \<Rightarrow> bool" where
  "pts_domain t = (0 \<le> t \<and> t < 2 ^ 33)"

definition partial_ok :: "'a PartialSegment_scheme \<Rightarrow> bool" where
  "partial_ok p =
     (pts_domain (beginPTS p) \<and>
      (case endPTS p of None \<Rightarrow> completed p = [] | Some e \<Rightarrow> pts_domain e))"

definition segment_ok :: "Segment \<Rightarrow> bool" where
  "segment_ok seg = (partial_ok seg \<and> list_all partial_ok (parts seg))"

definition sealed_segment :: "Segment \<Rightarrow> bool" where
  "sealed_segment seg = (isCompleted seg \<and> parts seg \<noteq> [] \<and> list_all isCompleted (parts seg))"

definition open_segment :: "Segment \<Rightarrow> bool" where
  "open_segment seg =
     (\<not> isCompleted seg \<and> parts seg \<noteq> [] \<and> list_all isCompleted (butlast (parts seg)) \<and>
      \<not> isCompleted (last (parts seg)))"

definition window_ok :: "TSFragmenter \<Rightarrow> bool" where
  "window_ok s =
     (M3U8_Begin_Sequence_Number s \<le> M3U8_End_Sequence_Number s \<and>
      length (M3U8_Segments s) = M3U8_End_Sequence_Number s - M3U8_Begin_Sequence_Number s \<and>
      list_all segment_ok (M3U8_Segments s) \<and>
      (M3U8_Segments s = [] \<or>
       (list_all sealed_segment (butlast (M3U8_Segments s)) \<and>
        open_segment (last (M3U8_Segments s)))))"

text \<open>
  What the methods that change the window do to a well-formed window, without the
  index arithmetic.
\<close>

definition upd_last :: "('a \<Rightarrow> 'a) \<Rightarrow> 'a list \<Rightarrow> 'a list" where
  "upd_last f xs = (if xs = [] then [] else butlast xs @ [f (last xs)])"

definition seg_add :: "buffer \<Rightarrow> Segment \<Rightarrow> Segment" where
  "seg_add packet seg = (addPacket packet seg)\<lparr>parts := upd_last (addPacket packet) (parts seg)\<rparr>"

definition add_packet :: "buffer \<Rightarrow> TSFragmenter \<Rightarrow> TSFragmenter" where
  "add_packet packet s = s\<lparr>M3U8_Segments := upd_last (seg_add packet) (M3U8_Segments s)\<rparr>"

definition seal :: "int \<Rightarrow> 'a PartialSegment_scheme \<Rightarrow> 'a PartialSegment_scheme" where
  "seal e p = fst (PartialSegment_complete e p)"

definition seg_cut :: "int \<Rightarrow> Segment \<Rightarrow> Segment" where
  "seg_cut b seg = seg\<lparr>parts := upd_last (seal b) (parts seg) @ [new_PartialSegment b None]\<rparr>"

definition last_part_callbacks :: "TSFragmenter \<Rightarrow> callback list" where
  "last_part_callbacks s =
     (if M3U8_Segments s = [] then []
      else complete_callbacks (last (parts (last (M3U8_Segments s)))))"

definition last_segment_callbacks :: "TSFragmenter \<Rightarrow> callback list" where
  "last_segment_callbacks s =
     (if M3U8_Segments s = [] then [] else complete_callbacks (last (M3U8_Segments s)))"

definition new_partial :: "int \<Rightarrow> TSFragmenter \<Rightarrow> TSFragmenter" where
  "new_partial b s =
     s\<lparr>M3U8_Segments := upd_last (seg_cut b) (M3U8_Segments s),
       fired := fired s @ last_part_callbacks s\<rparr>"

definition seg_seal :: "int \<Rightarrow> Segment \<Rightarrow> Segment" where
  "seg_seal e seg = (seal e seg)\<lparr>parts := upd_last (seal e) (parts seg)\<rparr>"

definition new_segment :: "string \<Rightarrow> int \<Rightarrow> TSFragmenter \<Rightarrow> TSFragmenter" where
  "new_segment now b s =
     (let s2 = s\<lparr>fired := fired s @ last_segment_callbacks s @ last_part_callbacks s,
                 M3U8_Segments :=
                   upd_last (seg_seal b) (M3U8_Segments s) @ [new_Segment now b (Some True)],
                 M3U8_End_Sequence_Number := M3U8_End_Sequence_Number s + 1,
                 created := created s + 1\<rparr>
      in if window_size s2 > int (M3U8_Segments_Length s2)
         then s2\<lparr>M3U8_Segments := tl (M3U8_Segments s2),
                 M3U8_Begin_Sequence_Number := M3U8_Begin_Sequence_Number s2 + 1\<rparr>
         else s2)"

text \<open>What the two registrations do to a well-formed window.\<close>

definition register_segment :: "nat \<Rightarrow> callback \<Rightarrow> TSFragmenter \<Rightarrow> TSFragmenter" where
  "register_segment i cb s =
     s\<lparr>M3U8_Segments := (M3U8_Segments s)[i := addCallback cb (M3U8_Segments s ! i)]\<rparr>"

definition register_partial :: "nat \<Rightarrow> nat \<Rightarrow> callback \<Rightarrow> TSFragmenter \<Rightarrow> TSFragmenter" where
  "register_partial i j cb s =
     s\<lparr>M3U8_Segments :=
         (M3U8_Segments s)[i := (M3U8_Segments s ! i)
            \<lparr>parts := (parts (M3U8_Segments s ! i))[j := addCallback cb (parts (M3U8_Segments s ! i) ! j)]\<rparr>]\<rparr>"

fun call_callbacks :: "call \<Rightarrow> callback list" where
  "call_callbacks (Write packets) = []"
| "call_callbacks (AddSegmentCallback msn cb) = [cb]"
| "call_callbacks (AddPartialCallback msn part cb) = [cb]"

text \<open>
  The window of a fragmenter configured with \<open>N\<close> that has created \<open>created s\<close>
  segments.
\<close>

definition count_ok :: "nat \<Rightarrow> TSFragmenter \<Rightarrow> bool" where
  "count_ok N s =
     (window_ok s \<and> M3U8_Segments_Length s = N \<and>
      M3U8_End_Sequence_Number s = created s \<and>
      length (M3U8_Segments s) = min (created s) N)"

text \<open>The begin and end PTS of every partial of every segment of the window.\<close>

definition timeline :: "TSFragmenter \<Rightarrow> (int \<times> int option) list list" where
  "timeline s = map (\<lambda>seg. map (\<lambda>p. (beginPTS p, endPTS p)) (parts seg)) (M3U8_Segments s)"

text \<open>The fields that the window methods read or change.\<close>

definition core ::
  "TSFragmenter \<Rightarrow> Segment list \<times> nat \<times> nat \<times> nat \<times> rat \<times> callback list \<times> nat \<times> nat option" where
  "core s =
     (M3U8_Segments s, M3U8_Begin_Sequence_Number s, M3U8_End_Sequence_Number s,
      M3U8_Segments_Length s, M3U8_Part_Target s, fired s, created s, PAT_TargetSID s)"

text \<open>
  A property of fragmenters that holds on well-formed windows only, depends on the
  fields of \<open>core\<close> only, and is kept by the three window methods.
\<close>

definition preserved :: "(TSFragmenter \<Rightarrow> bool) \<Rightarrow> bool" where
  "preserved I =
     ((\<forall>s. I s \<longrightarrow> window_ok s) \<and>
      (\<forall>s s'. I s \<longrightarrow> core s' = core s \<longrightarrow> I s') \<and>
      (\<forall>packet s. I s \<longrightarrow> I (add_packet packet s)) \<and>
      (\<forall>b s. I s \<longrightarrow> pts_domain b \<longrightarrow> I (new_partial b s)) \<and>
      (\<forall>now b s. I s \<longrightarrow> pts_domain b \<longrightarrow> I (new_segment now b s)))"

text \<open>A run that creates five segments.\<close>

definition five_segments :: "call list" where
  "five_segments =
     [Write [pkt 0 [0x47] [pat0], pkt 0x100 [0x48] [pmt0], pkt 0x101 [0x49] [pes 0 True]],
      Write [pkt 0x101 [0x4A] [pes 90000 True], pkt 0x101 [0x4B] [pes 180000 True]],
      AddSegmentCallback 2 7,
      Write [pkt 0x101 [0x4C] [pes 270000 True], pkt 0x101 [0x4D] [pes 360000 True]]]"

text \<open>A run that creates the first segment, at PTS 0.\<close>

definition first_segment :: "call list" where
  "first_segment =
     [Write [pkt 0 [0x47] [pat0], pkt 0x100 [0x48] [pmt0], pkt 0x101 [0x49] [pes 0 True]]]"

text \<open>
  The program entries of a PAT as the loop reads them: one every four bytes from the end
  of the extended header to the checksum, each a program number and a PID.
\<close>

definition PAT_entry :: "buffer \<Rightarrow> nat \<Rightarrow> nat \<times> nat" where
  "PAT_entry PAT i =
     (push_bit 8 (byte_at PAT (i + 0)) OR byte_at PAT (i + 1),
      push_bit 8 (byte_at PAT (i + 2) AND 0x1F) OR byte_at PAT (i + 3))"

definition PAT_offsets :: "lib \<Rightarrow> buffer \<Rightarrow> nat \<Rightarrow> nat list" where
  "PAT_offsets X PAT i =
     map (\<lambda>k. i + 4 * k)
       [0 ..< (nat (int (BASIC_HEADER_SIZE X) + int (section_length X PAT) - int (CRC_SIZE X) - int i) + 3) div 4]"

definition PAT_entries :: "lib \<Rightarrow> buffer \<Rightarrow> (nat \<times> nat) list" where
  "PAT_entries X PAT = map (PAT_entry PAT) (PAT_offsets X PAT (EXTENDED_HEADER_SIZE X))"

text \<open>
  The selection the specification describes: among the entries whose PID is not \<open>0x10\<close>,
  the first one when no target is configured, and otherwise the one with the target's
  program number (the last of them, should there be several).
\<close>

definition PAT_select :: "nat option \<Rightarrow> (nat \<times> nat) list \<Rightarrow> nat option" where
  "PAT_select target entries =
     (let qualifying = filter (\<lambda>e. snd e \<noteq> 0x10) entries in
      case target of
        None \<Rightarrow> (case qualifying of [] \<Rightarrow> None | e # es \<Rightarrow> Some (snd e))
      | Some sid \<Rightarrow>
          (case filter (\<lambda>e. fst e = sid) qualifying of
             [] \<Rightarrow> None
           | e # es \<Rightarrow> Some (snd (last (e # es)))))"

definition PAT_bind :: "nat option \<Rightarrow> nat option \<Rightarrow> nat \<times> nat \<Rightarrow> nat option" where
  "PAT_bind target bound e =
     (if snd e = 0x10 then bound
      else if target = Some (fst e) then Some (snd e)
      else if target = None \<and> bound = None then Some (snd e)
      else bound)"

text \<open>
  An options object can carry properties beyond those of \<^verbatim>\<open>TSFragmenterOptions\<close>; here,
  one that names a target service.
\<close>

record TSFragmenterOptions_target = TSFragmenterOptions +
  targetSID :: "nat option"

text \<open>A PAT with the program 1 on PID \<open>0x100\<close> and the program 2 on PID \<open>0x200\<close>.\<close>

definition pat2 :: buffer where
  "pat2 = [0x00, 0xB0, 0x11, 0, 1, 0xC1, 0, 0,
           0x00, 0x01, 0xE1, 0x00, 0x00, 0x02, 0xE2, 0x00, 0, 0, 0, 0]"

text \<open>A well-formed window of a fragmenter without target service.\<close>

definition no_target :: "TSFragmenter \<Rightarrow> bool" where
  "no_target s = (window_ok s \<and> PAT_TargetSID s = None)"







text \<open>The callbacks registered on a segment and on its partials, and in the window.\<close>

definition segment_callbacks :: "Segment \<Rightarrow> callback list" where
  "segment_callbacks seg = complete_callbacks seg @ concat (map complete_callbacks (parts seg))"

definition all_callbacks :: "TSFragmenter \<Rightarrow> callback list" where
  "all_callbacks s = concat (map segment_callbacks (M3U8_Segments s))"

text \<open>
  The life of a callback \<open>cb\<close> registered on the partial \<open>j\<close> of the segment with MSN
  \<open>m\<close>. Pending: that partial is the open partial, \<open>cb\<close> is registered on it and nowhere
  else, once, and has not been invoked. Delivered: the open partial, if any, comes after
  that partial, \<open>cb\<close> has been invoked once and is registered nowhere.
\<close>

definition pending :: "callback \<Rightarrow> nat \<Rightarrow> nat \<Rightarrow> TSFragmenter \<Rightarrow> bool" where
  "pending cb m j s =
     (window_ok s \<and> m + 1 = M3U8_End_Sequence_Number s \<and> M3U8_Segments s \<noteq> [] \<and>
      j + 1 = length (parts (last (M3U8_Segments s))) \<and>
      count_list (fired s) cb = 0 \<and>
      cb \<in> set (complete_callbacks (last (parts (last (M3U8_Segments s))))) \<and>
      count_list (all_callbacks s) cb = 1)"

definition delivered :: "callback \<Rightarrow> nat \<Rightarrow> nat \<Rightarrow> TSFragmenter \<Rightarrow> bool" where
  "delivered cb m j s =
     (window_ok s \<and>
      (m + 1 < M3U8_End_Sequence_Number s \<or>
       (m + 1 = M3U8_End_Sequence_Number s \<and>
        (M3U8_Segments s = [] \<or> j + 1 < length (parts (last (M3U8_Segments s)))))) \<and>
      count_list (fired s) cb = 1 \<and>
      count_list (all_callbacks s) cb = 0)"

definition tracked :: "callback \<Rightarrow> nat \<Rightarrow> nat \<Rightarrow> TSFragmenter \<Rightarrow> bool" where
  "tracked cb m j s = (pending cb m j s \<or> delivered cb m j s)"

text \<open>
  After a registration on the open partial of \<^const>\<open>first_segment\<close>: more video, two more
  registrations, and four more segments, so that the first one leaves the window.
\<close>

definition after_registration :: "call list" where
  "after_registration =
     [Write [pkt 0x101 [0x4A] [pes 27000 False]],
      AddPartialCallback 0 0 8,
      Write [pkt 0x101 [0x4B] [pes 90000 False]],
      AddSegmentCallback 0 9,
      Write [pkt 0x101 [0x4C] [pes 180000 True], pkt 0x101 [0x4D] [pes 270000 True],
             pkt 0x101 [0x4E] [pes 360000 True], pkt 0x101 [0x4F] [pes 450000 True]]]"

section \<open>Properties\<close>

subsection \<open>Partial segments\<close>

lemma js_rem_pts: "0 \<le> a \<Longrightarrow> js_rem a (2 ^ 33) = a mod 2 ^ 33"
  by (cases "a = 0") (simp_all add: js_rem_def)

lemma partial_calls_fields:
  "completed (foldl partial_step p cs) = completed p \<and>
   endPTS (foldl partial_step p cs) = endPTS p \<and>
   beginPTS (foldl partial_step p cs) = beginPTS p \<and>
   retains (foldl partial_step p cs) = retains p @ appended cs \<and>
   complete_callbacks (foldl partial_step p cs) = complete_callbacks p @ registered cs"
proof (induction cs arbitrary: p)
  case Nil
  show ?case by simp
next
  case (Cons c cs)
  show ?case
    by (cases c) (simp_all add: Cons.IH addPacket_def addCallback_def)
qed

text \<open>
  Claim C2. A partial that has received any sequence of \<^verbatim>\<open>addPacket\<close> and
  \<^verbatim>\<open>addCallback\<close> calls since its construction has an empty buffer; sealing it, with
  any end PTS, makes the buffer the concatenation of the appended chunks in order, invokes
  the registered callbacks once each in registration order, and empties the callback list.
\<close>

theorem partial_buffer_and_callbacks:
  "getBuffer (foldl partial_step (new_PartialSegment b h) cs) = [] \<and>
   \<not> isCompleted (foldl partial_step (new_PartialSegment b h) cs) \<and>
   getBuffer (fst (PartialSegment_complete e (foldl partial_step (new_PartialSegment b h) cs)))
     = concat (appended cs) \<and>
   isCompleted (fst (PartialSegment_complete e (foldl partial_step (new_PartialSegment b h) cs))) \<and>
   snd (PartialSegment_complete e (foldl partial_step (new_PartialSegment b h) cs)) = registered cs \<and>
   complete_callbacks (fst (PartialSegment_complete e (foldl partial_step (new_PartialSegment b h) cs))) = []"
  by (simp add: getBuffer_def isCompleted_def PartialSegment_complete_def partial_calls_fields
      new_PartialSegment_def)

text \<open>
  Claim C3. A sealed partial with begin PTS \<open>b\<close> and end PTS \<open>e\<close>, both in the 33-bit
  domain, lasts \<open>((e - b + 2 ^ 33) mod 2 ^ 33) / 90000\<close> seconds.
\<close>

theorem sealed_partial_seconds:
  assumes "0 \<le> b" "b < 2 ^ 33" "0 \<le> e" "e < 2 ^ 33"
  shows "getSeconds (fst (PartialSegment_complete e (foldl partial_step (new_PartialSegment b h) cs)))
         = Some (of_int ((e - b + 2 ^ 33) mod 2 ^ 33) / 90000)"
proof -
  have "0 \<le> e - b + 2 ^ 33" using assms by simp
  then have "js_rem (e - b + 2 ^ 33) (2 ^ 33) = (e - b + 2 ^ 33) mod 2 ^ 33"
    by (rule js_rem_pts)
  then show ?thesis
    by (simp add: getSeconds_def PartialSegment_complete_def partial_calls_fields new_PartialSegment_def)
qed

theorem sealed_partial_seconds_wraparound:
  "(0::int) \<le> 2 ^ 33 - 10 \<and> (2 ^ 33 - 10 :: int) < 2 ^ 33 \<and> (0::int) \<le> 5 \<and> (5::int) < 2 ^ 33 \<and>
   getSeconds (fst (PartialSegment_complete 5 (foldl partial_step (new_PartialSegment (2 ^ 33 - 10) None) [])))
     = Some (15 / 90000)"
  using sealed_partial_seconds [of "2 ^ 33 - 10" 5 None "[]"] by simp

subsection \<open>The window methods on a well-formed window\<close>

lemma list_update_last: "xs \<noteq> [] \<Longrightarrow> xs[length xs - Suc 0 := y] = butlast xs @ [y]"
  by (cases xs rule: rev_cases) simp_all


lemma js_index_last:
  "xs \<noteq> [] \<Longrightarrow> js_index xs (int (length xs) - 1) = Some (last xs)"
  by (cases xs rule: rev_cases) (simp_all add: js_index_def nth_append)

lemma Segment_addPacket_total:
  "parts seg \<noteq> [] \<Longrightarrow> Segment_addPacket packet seg = Some (seg_add packet seg)"
  by (simp add: Segment_addPacket_def seg_add_def addPacket_def js_index_last Let_def
      upd_last_def list_update_last)

lemma window_ok_size:
  "window_ok s \<Longrightarrow> window_size s = int (length (M3U8_Segments s))"
  by (simp add: window_ok_def window_size_def)

lemma window_ok_last_parts:
  "window_ok s \<Longrightarrow> M3U8_Segments s \<noteq> [] \<Longrightarrow> parts (last (M3U8_Segments s)) \<noteq> []"
  by (simp add: window_ok_def open_segment_def)

lemma M3U8_Add_Packet_total:
  assumes "window_ok s"
  shows "M3U8_Add_Packet packet s = Some (add_packet packet s)"
proof (cases "M3U8_Segments s = []")
  case True
  then show ?thesis
    using assms by (simp add: M3U8_Add_Packet_def window_ok_size add_packet_def upd_last_def)
next
  case False
  then have "nat (int (length (M3U8_Segments s)) - 1) = length (M3U8_Segments s) - 1"
    by (simp add: nat_diff_distrib')
  then show ?thesis
    using assms False
    by (simp add: M3U8_Add_Packet_def window_ok_size add_packet_def js_index_last
        Segment_addPacket_total window_ok_last_parts upd_last_def list_update_last)
qed

lemma Segment_completePartial_total:
  "parts seg \<noteq> [] \<Longrightarrow>
   Segment_completePartial e seg =
     (seg\<lparr>parts := upd_last (seal e) (parts seg)\<rparr>, complete_callbacks (last (parts seg)))"
  by (simp add: Segment_completePartial_def Let_def seal_def upd_last_def list_update_last
      last_conv_nth PartialSegment_complete_def)

lemma M3U8_New_Partial_total:
  assumes "window_ok s"
  shows "M3U8_New_Partial b s = Some (new_partial b s)"
proof (cases "M3U8_Segments s = []")
  case True
  then show ?thesis
    using assms
    by (simp add: M3U8_New_Partial_def window_ok_size new_partial_def upd_last_def
        last_part_callbacks_def)
next
  case False
  then have "nat (int (length (M3U8_Segments s)) - 1) = length (M3U8_Segments s) - 1"
    by (simp add: nat_diff_distrib')
  then show ?thesis
    using assms False
    by (simp add: M3U8_New_Partial_def window_ok_size new_partial_def js_index_last
        Segment_completePartial_total window_ok_last_parts upd_last_def list_update_last
        last_part_callbacks_def seg_cut_def Segment_newPartial_def)
qed

lemma Segment_complete_total:
  "parts seg \<noteq> [] \<Longrightarrow>
   Segment_complete e seg =
     (seg_seal e seg, complete_callbacks seg @ complete_callbacks (last (parts seg)))"
  by (simp add: Segment_complete_def Let_def seg_seal_def seal_def PartialSegment_complete_def
      Segment_completePartial_total)

lemma window_ok_end:
  "window_ok s \<Longrightarrow>
   M3U8_End_Sequence_Number s = M3U8_Begin_Sequence_Number s + length (M3U8_Segments s)"
  by (simp add: window_ok_def)

lemma M3U8_New_Segment_total:
  assumes "window_ok s" "PAT_lastPAT s = Some PAT" "PMT_lastPMT s = Some PMT"
  shows "M3U8_New_Segment X now b s =
         Option.bind (M3U8_Add_PAT X PAT (new_segment now b s)) (M3U8_Add_PMT X PMT)"
proof (cases "M3U8_Segments s = []")
  case True
  then show ?thesis
    using assms(2,3) window_ok_end [OF assms(1)]
    by (simp add: M3U8_New_Segment_def new_segment_def upd_last_def
        last_part_callbacks_def last_segment_callbacks_def Let_def window_size_def)
next
  case False
  then have "nat (int (length (M3U8_Segments s)) - 1) = length (M3U8_Segments s) - 1"
    by (simp add: nat_diff_distrib')
  then show ?thesis
    using assms(2,3) False window_ok_end [OF assms(1)] window_ok_last_parts [OF assms(1)]
    by (simp add: M3U8_New_Segment_def new_segment_def js_index_last
        Segment_complete_total upd_last_def list_update_last
        last_part_callbacks_def last_segment_callbacks_def Let_def window_size_def)
qed


lemma upd_last_Nil [simp]: "upd_last f [] = []"
  by (simp add: upd_last_def)

lemma upd_last_snoc [simp]: "upd_last f (xs @ [x]) = xs @ [f x]"
  by (simp add: upd_last_def)

lemma length_upd_last [simp]: "length (upd_last f xs) = length xs"
  by (cases xs rule: rev_cases) simp_all

lemma upd_last_eq_Nil [simp]: "upd_last f xs = [] \<longleftrightarrow> xs = []"
  by (cases xs rule: rev_cases) simp_all

lemma partial_ok_addPacket [simp]: "partial_ok (addPacket packet p) = partial_ok p"
  by (simp add: partial_ok_def addPacket_def split: option.splits)

lemma isCompleted_addPacket [simp]: "isCompleted (addPacket packet p) = isCompleted p"
  by (simp add: isCompleted_def addPacket_def)

lemma partial_ok_seal [simp]: "pts_domain e \<Longrightarrow> partial_ok p \<Longrightarrow> partial_ok (seal e p)"
  by (simp add: partial_ok_def seal_def PartialSegment_complete_def split: option.splits)

lemma isCompleted_seal [simp]: "isCompleted (seal e p)"
  by (simp add: isCompleted_def seal_def PartialSegment_complete_def)

lemma partial_ok_new [simp]: "pts_domain b \<Longrightarrow> partial_ok (new_PartialSegment b h)"
  by (simp add: partial_ok_def new_PartialSegment_def split: option.splits)

lemma isCompleted_new [simp]: "\<not> isCompleted (new_PartialSegment b h)"
  by (simp add: isCompleted_def new_PartialSegment_def)

lemma partial_ok_parts_update [simp]: "partial_ok (seg\<lparr>parts := ps\<rparr>) = partial_ok seg"
  by (simp add: partial_ok_def split: option.splits)

lemma isCompleted_parts_update [simp]: "isCompleted (seg\<lparr>parts := ps\<rparr>) = isCompleted seg"
  by (simp add: isCompleted_def)

lemma parts_addPacket [simp]: "parts (addPacket packet seg) = parts seg"
  by (simp add: addPacket_def)

lemma parts_seal [simp]: "parts (seal e seg) = parts seg"
  by (simp add: seal_def PartialSegment_complete_def)

lemma segment_ok_seg_add: "segment_ok seg \<Longrightarrow> segment_ok (seg_add packet seg)"
  by (cases "parts seg" rule: rev_cases) (simp_all add: segment_ok_def seg_add_def)

lemma open_segment_seg_add: "open_segment seg \<Longrightarrow> open_segment (seg_add packet seg)"
  by (cases "parts seg" rule: rev_cases) (simp_all add: open_segment_def seg_add_def)

lemma segment_ok_seg_cut:
  "pts_domain b \<Longrightarrow> segment_ok seg \<Longrightarrow> segment_ok (seg_cut b seg)"
  by (cases "parts seg" rule: rev_cases) (simp_all add: segment_ok_def seg_cut_def)

lemma open_segment_seg_cut: "open_segment seg \<Longrightarrow> open_segment (seg_cut b seg)"
  by (cases "parts seg" rule: rev_cases)
     (simp_all add: open_segment_def seg_cut_def butlast_append)

lemma segment_ok_seg_seal:
  "pts_domain b \<Longrightarrow> segment_ok seg \<Longrightarrow> segment_ok (seg_seal b seg)"
  by (cases "parts seg" rule: rev_cases) (simp_all add: segment_ok_def seg_seal_def)

lemma sealed_segment_seg_seal: "open_segment seg \<Longrightarrow> sealed_segment (seg_seal b seg)"
  by (cases "parts seg" rule: rev_cases)
     (simp_all add: open_segment_def sealed_segment_def seg_seal_def)

lemma segment_ok_new_Segment: "pts_domain b \<Longrightarrow> segment_ok (new_Segment now b h)"
  by (simp add: segment_ok_def new_Segment_def Segment_newPartial_def partial_ok_def
      new_PartialSegment_def)

lemma open_segment_new_Segment: "open_segment (new_Segment now b h)"
  by (simp add: open_segment_def new_Segment_def Segment_newPartial_def isCompleted_def
      new_PartialSegment_def)

lemma window_ok_add_packet: "window_ok s \<Longrightarrow> window_ok (add_packet packet s)"
  by (cases "M3U8_Segments s" rule: rev_cases)
     (simp_all add: window_ok_def add_packet_def segment_ok_seg_add open_segment_seg_add)

lemma window_ok_new_partial: "pts_domain b \<Longrightarrow> window_ok s \<Longrightarrow> window_ok (new_partial b s)"
  by (cases "M3U8_Segments s" rule: rev_cases)
     (simp_all add: window_ok_def new_partial_def segment_ok_seg_cut open_segment_seg_cut)

lemma list_all_tl: "list_all P xs \<Longrightarrow> list_all P (tl xs)"
  by (cases xs) simp_all

lemma window_ok_new_segment:
  assumes "pts_domain b" "window_ok s"
  shows "window_ok (new_segment now b s)"
proof -
  let ?xs = "upd_last (seg_seal b) (M3U8_Segments s)"
  have ok: "list_all segment_ok ?xs"
    using assms
    by (cases "M3U8_Segments s" rule: rev_cases) (simp_all add: window_ok_def segment_ok_seg_seal)
  have sealed: "list_all sealed_segment ?xs"
    using assms
    by (cases "M3U8_Segments s" rule: rev_cases)
       (simp_all add: window_ok_def sealed_segment_seg_seal)
  have e: "M3U8_End_Sequence_Number s = M3U8_Begin_Sequence_Number s + length (M3U8_Segments s)"
    using assms(2) by (simp add: window_ok_def)
  show ?thesis
  proof (cases "M3U8_Segments s = []")
    case True
    then show ?thesis
      using assms(1) e
      by (simp add: window_ok_def new_segment_def Let_def window_size_def
          segment_ok_new_Segment open_segment_new_Segment)
  next
    case False
    then have ne: "?xs \<noteq> []" by simp
    show ?thesis
      using assms(1) e ok sealed ne False list_all_tl [OF ok] list_all_tl [OF sealed]
      by (simp add: window_ok_def new_segment_def Let_def window_size_def
          segment_ok_new_Segment open_segment_new_Segment butlast_append)
  qed
qed

lemma and_bound: "(x::nat) AND y \<le> y"
proof -
  have "int x AND int y \<le> int y" by (rule AND_upper2) simp
  then have "int (x AND y) \<le> int y" by (simp add: of_nat_and_eq)
  then show ?thesis by simp
qed

lemma drop_and_bound: "drop_bit k ((x::nat) AND m) \<le> m div 2 ^ k"
  by (simp add: drop_bit_nat_def div_le_mono and_bound)

lemma pts_sum_bound:
  fixes a b c d e :: nat
  assumes "a \<le> 7" "b \<le> 255" "c \<le> 127" "d \<le> 255" "e \<le> 127"
  shows "pts_domain (((((0 * push_bit 3 1 + int a) * push_bit 8 1 + int b) * push_bit 7 1 + int c)
           * push_bit 8 1 + int d) * push_bit 7 1 + int e)"
  using assms by (simp add: pts_domain_def)

lemma pts_domain_PES_pts: "pts_domain (PES_pts X VideoPES)"
  unfolding PES_pts_def Let_def
proof (rule pts_sum_bound)
  show "drop_bit 1 (byte_at VideoPES (PES_HEADER_SIZE X + 3 + 0) AND 0x0E) \<le> 7"
    using drop_and_bound [of 1 _ "0x0E"] by simp
  show "drop_bit 0 (byte_at VideoPES (PES_HEADER_SIZE X + 3 + 1) AND 0xFF) \<le> 255"
    using drop_and_bound [of 0 _ "0xFF"] by simp
  show "drop_bit 1 (byte_at VideoPES (PES_HEADER_SIZE X + 3 + 2) AND 0xFE) \<le> 127"
    using drop_and_bound [of 1 _ "0xFE"] by simp
  show "drop_bit 0 (byte_at VideoPES (PES_HEADER_SIZE X + 3 + 3) AND 0xFF) \<le> 255"
    using drop_and_bound [of 0 _ "0xFF"] by simp
  show "drop_bit 1 (byte_at VideoPES (PES_HEADER_SIZE X + 3 + 4) AND 0xFE) \<le> 127"
    using drop_and_bound [of 1 _ "0xFE"] by simp
qed

subsection \<open>Properties kept by \<^verbatim>\<open>_write\<close>\<close>

lemma forEach_keeps:
  assumes "\<And>x s. I s \<Longrightarrow> \<exists>s'. f x s = Some s' \<and> I s'"
  shows "I s \<Longrightarrow> \<exists>s'. forEach f xs s = Some s' \<and> I s'"
proof (induction xs arbitrary: s)
  case Nil
  then show ?case by simp
next
  case (Cons x xs)
  from assms [OF Cons.prems, of x] obtain s1 where "f x s = Some s1" "I s1" by blast
  with Cons.IH [of s1] show ?case by simp
qed

lemma preserved_window: "preserved I \<Longrightarrow> I s \<Longrightarrow> window_ok s"
  by (simp add: preserved_def)

lemma preserved_core: "preserved I \<Longrightarrow> I s \<Longrightarrow> core s' = core s \<Longrightarrow> I s'"
  unfolding preserved_def by blast

lemma preserved_add_packet: "preserved I \<Longrightarrow> I s \<Longrightarrow> I (add_packet packet s)"
  by (simp add: preserved_def)

lemma preserved_new_partial: "preserved I \<Longrightarrow> I s \<Longrightarrow> pts_domain b \<Longrightarrow> I (new_partial b s)"
  by (simp add: preserved_def)

lemma preserved_new_segment:
  "preserved I \<Longrightarrow> I s \<Longrightarrow> pts_domain b \<Longrightarrow> I (new_segment now b s)"
  by (simp add: preserved_def)

lemma Add_Packet_keeps:
  "preserved I \<Longrightarrow> I s \<Longrightarrow> \<exists>s'. M3U8_Add_Packet packet s = Some s' \<and> I s'"
  by (simp add: M3U8_Add_Packet_total preserved_window preserved_add_packet)

lemma Add_Packets_keeps:
  "preserved I \<Longrightarrow> I s \<Longrightarrow> \<exists>s'. forEach M3U8_Add_Packet packets s = Some s' \<and> I s'"
  by (rule forEach_keeps) (rule Add_Packet_keeps)

lemma Add_PAT_keeps:
  assumes "preserved I" "I s"
  shows "\<exists>s'. M3U8_Add_PAT X PAT s = Some s' \<and> I s'"
  unfolding M3U8_Add_PAT_def Let_def
  by (rule Add_Packets_keeps [OF assms(1)])
     (rule preserved_core [OF assms], simp add: core_def)

lemma Add_PMT_keeps:
  assumes "preserved I" "I s"
  shows "\<exists>s'. M3U8_Add_PMT X PMT s = Some s' \<and> I s'"
proof (cases "PAT_TargetPMTPid s")
  case None
  then show ?thesis using assms(2) by (simp add: M3U8_Add_PMT_def)
next
  case (Some pmt_pid)
  show ?thesis
  proof (cases "pmt_pid = 0")
    case True
    then show ?thesis using assms(2) Some by (simp add: M3U8_Add_PMT_def)
  next
    case False
    have "\<exists>s'. forEach M3U8_Add_Packet
            (packetize X PMT (Packet_TransportErrorIndicator s) (Packet_TransportPriority s)
               pmt_pid (Packet_TransportScramblingControl s) (PMT_Continuous_Counter s))
            (s\<lparr>PMT_Continuous_Counter :=
                 (PMT_Continuous_Counter s +
                  length (packetize X PMT (Packet_TransportErrorIndicator s)
                     (Packet_TransportPriority s) pmt_pid
                     (Packet_TransportScramblingControl s) (PMT_Continuous_Counter s))) AND 0x0F\<rparr>)
           = Some s' \<and> I s'"
      by (rule Add_Packets_keeps [OF assms(1)])
         (rule preserved_core [OF assms], simp add: core_def)
    then show ?thesis using Some False by (simp add: M3U8_Add_PMT_def Let_def)
  qed
qed

lemma New_Segment_keeps:
  assumes "preserved I" "I s" "pts_domain b"
  shows "\<exists>s'. M3U8_New_Segment X now b s = Some s' \<and> I s'"
proof (cases "PAT_lastPAT s")
  case None
  then show ?thesis using assms(2) by (simp add: M3U8_New_Segment_def)
next
  case pat: (Some PAT)
  show ?thesis
  proof (cases "PMT_lastPMT s")
    case None
    then show ?thesis using assms(2) pat by (simp add: M3U8_New_Segment_def)
  next
    case pmt: (Some PMT)
    have "I (new_segment now b s)" by (rule preserved_new_segment [OF assms])
    from Add_PAT_keeps [OF assms(1) this] obtain s4
      where s4: "M3U8_Add_PAT X PAT (new_segment now b s) = Some s4" "I s4" by blast
    from Add_PMT_keeps [OF assms(1) s4(2)] obtain s5
      where s5: "M3U8_Add_PMT X PMT s4 = Some s5" "I s5" by blast
    show ?thesis
      using M3U8_New_Segment_total [OF preserved_window [OF assms(1,2)] pat pmt, of X now b] s4 s5
      by simp
  qed
qed

lemma M3U8_Get_Last_Partial_total:
  assumes "window_ok s"
  shows "M3U8_Get_Last_Partial s =
         Some (if M3U8_Segments s = [] then None
               else Some (last (parts (last (M3U8_Segments s)))))"
proof (cases "M3U8_Segments s = []")
  case True
  then show ?thesis
    using assms by (simp add: M3U8_Get_Last_Partial_def window_ok_size)
next
  case False
  then show ?thesis
    using assms window_ok_last_parts [OF assms False]
    by (simp add: M3U8_Get_Last_Partial_def window_ok_size js_index_last Segment_getPartial_def
        getLength_def)
qed

lemma cut_partial_total:
  assumes "window_ok s"
  shows "cut_partial pts s =
         Some (if M3U8_Segments s \<noteq> [] \<and>
                  M3U8_Part_Target s * (85 / 100)
                    < estimateSeconds pts (last (parts (last (M3U8_Segments s)))) \<and>
                  estimateSeconds pts (last (parts (last (M3U8_Segments s))))
                    \<le> M3U8_Part_Target s
               then new_partial pts s else s)"
  using assms
  by (simp add: cut_partial_def M3U8_Get_Last_Partial_total M3U8_New_Partial_total Let_def)

lemma cut_partial_keeps:
  assumes "preserved I" "I s" "pts_domain pts"
  shows "\<exists>s'. cut_partial pts s = Some s' \<and> I s'"
  using assms
  by (simp add: cut_partial_total preserved_window preserved_new_partial)

lemma on_VideoPES_keeps:
  assumes "preserved I" "I s"
  shows "\<exists>s'. on_VideoPES X now VideoPES s = Some s' \<and> I s'"
proof -
  let ?pts = "PES_pts X VideoPES"
  have dom: "pts_domain ?pts" by (rule pts_domain_PES_pts)
  have "\<exists>s1. (if PES_hasIDR X VideoPES
               then M3U8_New_Segment X now ?pts
                      (if \<not> M3U8_Initial_IDR_Detected s
                       then s\<lparr>M3U8_Initial_IDR_Detected := True\<rparr> else s)
               else Some s) = Some s1 \<and> I s1"
  proof (cases "PES_hasIDR X VideoPES")
    case True
    have "I (if \<not> M3U8_Initial_IDR_Detected s
             then s\<lparr>M3U8_Initial_IDR_Detected := True\<rparr> else s)"
      using preserved_core [OF assms, of "s\<lparr>M3U8_Initial_IDR_Detected := True\<rparr>"] assms(2)
      by (simp add: core_def)
    from New_Segment_keeps [OF assms(1) this dom] True show ?thesis by simp
  next
    case False
    then show ?thesis using assms(2) by simp
  qed
  then obtain s1 where s1: "(if PES_hasIDR X VideoPES
               then M3U8_New_Segment X now ?pts
                      (if \<not> M3U8_Initial_IDR_Detected s
                       then s\<lparr>M3U8_Initial_IDR_Detected := True\<rparr> else s)
               else Some s) = Some s1" "I s1" by blast
  show ?thesis
  proof (cases "M3U8_Initial_IDR_Detected s1")
    case False
    then show ?thesis using s1 by (simp add: on_VideoPES_def Let_def)
  next
    case True
    have "\<exists>s2. (if \<not> PES_hasIDR X VideoPES then cut_partial ?pts s1 else Some s1) = Some s2 \<and> I s2"
      using cut_partial_keeps [OF assms(1) s1(2) dom] s1(2) by simp
    then obtain s2
      where s2: "(if \<not> PES_hasIDR X VideoPES then cut_partial ?pts s1 else Some s1) = Some s2" "I s2"
      by blast
    from Add_Packets_keeps [OF assms(1) s2(2)] obtain s3
      where s3: "forEach M3U8_Add_Packet (Video_Packets s2) s2 = Some s3" "I s3" by blast
    have "I (s3\<lparr>Video_Packets := []\<rparr>)"
      by (rule preserved_core [OF assms(1) s3(2)]) (simp add: core_def)
    then show ?thesis
      using s1 s2 s3 True by (simp add: on_VideoPES_def Let_def)
  qed
qed

lemma core_updates [simp]:
  "core (s\<lparr>Packet_TransportErrorIndicator := v1\<rparr>) = core s"
  "core (s\<lparr>Packet_TransportPriority := v2\<rparr>) = core s"
  "core (s\<lparr>Packet_TransportScramblingControl := v3\<rparr>) = core s"
  "core (s\<lparr>PAT_lastPAT := v4\<rparr>) = core s"
  "core (s\<lparr>PAT_Continuous_Counter := v5\<rparr>) = core s"
  "core (s\<lparr>PAT_TargetPMTPid := v6\<rparr>) = core s"
  "core (s\<lparr>PMT_lastPMT := v7\<rparr>) = core s"
  "core (s\<lparr>PMT_Continuous_Counter := v8\<rparr>) = core s"
  "core (s\<lparr>PMT_VideoPid := v9\<rparr>) = core s"
  "core (s\<lparr>PMT_PCRPid := v10\<rparr>) = core s"
  "core (s\<lparr>Video_Packets := v11\<rparr>) = core s"
  "core (s\<lparr>M3U8_Initial_PAT_Detected := v12\<rparr>) = core s"
  "core (s\<lparr>M3U8_Initial_PMT_Detected := v13\<rparr>) = core s"
  "core (s\<lparr>M3U8_Initial_IDR_Detected := v14\<rparr>) = core s"
  by (simp_all add: core_def)

lemma core_PAT_scan [simp]: "core (PAT_scan X PAT i s) = core s"
proof (induction X PAT i s rule: PAT_scan.induct)
  case (1 X PAT i s)
  show ?case
    apply (subst PAT_scan.simps)
    using 1 by (simp add: Let_def)
qed

lemma core_PMT_scan [simp]: "core (PMT_scan X PMT i s) = core s"
proof (induction X PMT i s rule: PMT_scan.induct)
  case (1 X PMT i s)
  show ?case
    apply (subst PMT_scan.simps)
    using 1 by (simp add: Let_def)
qed

lemma on_PAT_keeps:
  assumes "preserved I" "I s"
  shows "\<exists>s'. on_PAT X PAT s = Some s' \<and> I s'"
proof (cases "CRC32 X PAT \<noteq> 0")
  case True
  then show ?thesis using assms(2) by (simp add: on_PAT_def)
next
  case False
  define s2 where "s2 = PAT_scan X PAT (EXTENDED_HEADER_SIZE X)
                          (s\<lparr>PAT_lastPAT := Some PAT, PAT_TargetPMTPid := None\<rparr>)"
  define s3 where "s3 = (if \<not> M3U8_Initial_PAT_Detected s2
                         then s2\<lparr>M3U8_Initial_PAT_Detected := True\<rparr> else s2)"
  have eq: "on_PAT X PAT s = (if M3U8_Initial_IDR_Detected s3 then M3U8_Add_PAT X PAT s3 else Some s3)"
    using False by (simp add: on_PAT_def Let_def s2_def s3_def)
  have "core s3 = core s" by (simp add: s2_def s3_def)
  then have i3: "I s3" by (rule preserved_core [OF assms])
  from Add_PAT_keeps [OF assms(1) i3] i3 show ?thesis
    by (simp add: eq)
qed

lemma on_PMT_keeps:
  assumes "preserved I" "I s"
  shows "\<exists>s'. on_PMT X PMT s = Some s' \<and> I s'"
proof (cases "CRC32 X PMT \<noteq> 0")
  case True
  then show ?thesis using assms(2) by (simp add: on_PMT_def)
next
  case False
  define s3 where "s3 = PMT_scan X PMT
               (EXTENDED_HEADER_SIZE X + 4 +
                (push_bit 8 (byte_at PMT (EXTENDED_HEADER_SIZE X + 2) AND 0x0F)
                   OR byte_at PMT (EXTENDED_HEADER_SIZE X + 3)))
               (s\<lparr>PMT_lastPMT := Some PMT, PMT_VideoPid := None,
                   PMT_PCRPid := Some (push_bit 8 (byte_at PMT (EXTENDED_HEADER_SIZE X + 0) AND 0x1F)
                        OR byte_at PMT (EXTENDED_HEADER_SIZE X + 1))\<rparr>)"
  define s4 where "s4 = (if \<not> M3U8_Initial_PMT_Detected s3
                         then s3\<lparr>M3U8_Initial_PMT_Detected := True\<rparr> else s3)"
  have eq: "on_PMT X PMT s = (if M3U8_Initial_IDR_Detected s4 then M3U8_Add_PMT X PMT s4 else Some s4)"
    using False by (simp add: on_PMT_def Let_def s3_def s4_def)
  have "core s4 = core s" by (simp add: s3_def s4_def)
  then have i4: "I s4" by (rule preserved_core [OF assms])
  from Add_PMT_keeps [OF assms(1) i4] i4 show ?thesis
    by (simp add: eq)
qed

lemma write_packet_keeps:
  assumes "preserved I" "I s"
  shows "\<exists>s'. write_packet X packet s = Some s' \<and> I s'"
proof -
  let ?s0 = "s\<lparr>Packet_TransportErrorIndicator := transport_error_indicator packet,
                Packet_TransportPriority := transport_priority packet,
                Packet_TransportScramblingControl := transport_scrambling_control packet\<rparr>"
  have i0: "I ?s0" by (rule preserved_core [OF assms]) simp
  have iv: "I (?s0\<lparr>Video_Packets := Video_Packets ?s0 @ [bytes packet]\<rparr>)"
    by (rule preserved_core [OF assms]) simp
  note pat = forEach_keeps [where I = I and f = "on_PAT X", OF on_PAT_keeps [OF assms(1)] i0]
  note pmt = forEach_keeps [where I = I and f = "on_PMT X", OF on_PMT_keeps [OF assms(1)] i0]
  note vid = forEach_keeps [where I = I and f = "on_VideoPES X (clock packet)",
      OF on_VideoPES_keeps [OF assms(1)] iv]
  note add = Add_Packet_keeps [OF assms(1) i0]
  show ?thesis
    unfolding write_packet_def Let_def
    using pat pmt vid add i0 by simp
qed

lemma write_keeps:
  assumes "preserved I" "I s"
  shows "\<exists>s'. TSFragmenter_write X packets s = Some s' \<and> I s'"
  unfolding TSFragmenter_write_def
  by (rule forEach_keeps [where I = I, OF write_packet_keeps [OF assms(1)] assms(2)])

lemma preserved_window_ok: "preserved window_ok"
  by (simp add: preserved_def window_ok_add_packet window_ok_new_partial window_ok_new_segment)
     (simp add: window_ok_def core_def)

lemma window_ok_new: "window_ok (new_TSFragmenter options)"
  by (simp add: window_ok_def new_TSFragmenter_def)

subsection \<open>Runs keep the window well-formed\<close>

lemma M3U8_Get_Segment_total:
  assumes "window_ok s"
  shows "M3U8_Get_Segment msn s =
         (if inRangeSegment msn s
          then Some (M3U8_Segments s ! nat (msn - int (M3U8_Begin_Sequence_Number s)))
          else None)"
  using window_ok_end [OF assms]
  by (auto simp add: M3U8_Get_Segment_def inRangeSegment_def js_index_def)

lemma inRange_index:
  assumes "window_ok s" "inRangeSegment msn s"
  shows "nat (msn - int (M3U8_Begin_Sequence_Number s)) < length (M3U8_Segments s)"
  using window_ok_end [OF assms(1)] assms(2)
  by (auto simp add: inRangeSegment_def split: if_splits)

lemma inRange_js_index:
  assumes "window_ok s" "inRangeSegment msn s"
  shows "js_index (M3U8_Segments s) (msn - int (M3U8_Begin_Sequence_Number s)) =
         Some (M3U8_Segments s ! nat (msn - int (M3U8_Begin_Sequence_Number s)))"
  using window_ok_end [OF assms(1)] assms(2)
  by (auto simp add: inRangeSegment_def js_index_def split: if_splits)

lemma addSegmentCallback_total:
  assumes "window_ok s"
  shows "addSegmentCallback msn cb s =
         (if inRangeSegment msn s
          then (True, register_segment (nat (msn - int (M3U8_Begin_Sequence_Number s))) cb s)
          else (False, s))"
  by (simp add: addSegmentCallback_def M3U8_Get_Segment_total [OF assms] register_segment_def)

lemma inRangePartial_total:
  assumes "window_ok s"
  shows "inRangePartial msn part s =
         Some (inRangeSegment msn s \<and> 0 \<le> part \<and>
               part < int (length (parts (M3U8_Segments s ! nat (msn - int (M3U8_Begin_Sequence_Number s))))))"
  using inRange_js_index [OF assms]
  by (auto simp add: inRangePartial_def Segment_getPartial_def js_index_def)

lemma M3U8_Get_Partial_total:
  assumes "window_ok s"
  shows "M3U8_Get_Partial msn part s =
         Some (if inRangeSegment msn s \<and> 0 \<le> part \<and>
                  part < int (length (parts (M3U8_Segments s ! nat (msn - int (M3U8_Begin_Sequence_Number s)))))
               then Some (parts (M3U8_Segments s ! nat (msn - int (M3U8_Begin_Sequence_Number s))) ! nat part)
               else None)"
  using inRange_js_index [OF assms]
  by (auto simp add: M3U8_Get_Partial_def inRangePartial_total [OF assms] Segment_getPartial_def
      js_index_def)

lemma addPartialCallback_total:
  assumes "window_ok s"
  shows "addPartialCallback msn part cb s =
         Some (if inRangeSegment msn s \<and> 0 \<le> part \<and>
                  part < int (length (parts (M3U8_Segments s ! nat (msn - int (M3U8_Begin_Sequence_Number s)))))
               then (True, register_partial (nat (msn - int (M3U8_Begin_Sequence_Number s))) (nat part) cb s)
               else (False, s))"
  by (simp add: addPartialCallback_def M3U8_Get_Partial_total [OF assms] register_partial_def Let_def)

lemma run_keeps:
  assumes pres: "preserved I"
    and seg: "\<And>i cb s. I s \<Longrightarrow> P cb \<Longrightarrow> i < length (M3U8_Segments s) \<Longrightarrow> I (register_segment i cb s)"
    and part: "\<And>i j cb s. I s \<Longrightarrow> P cb \<Longrightarrow> i < length (M3U8_Segments s) \<Longrightarrow>
                 j < length (parts (M3U8_Segments s ! i)) \<Longrightarrow> I (register_partial i j cb s)"
    and calls: "\<forall>c \<in> set calls. \<forall>cb \<in> set (call_callbacks c). P cb"
    and init: "I s"
  shows "\<exists>s'. run X calls s = Some s' \<and> I s'"
  using calls init unfolding run_def
proof (induction calls arbitrary: s)
  case Nil
  then show ?case by simp
next
  case (Cons c calls)
  have w: "window_ok s" by (rule preserved_window [OF pres Cons.prems(2)])
  have "\<exists>s1. call_step X c s = Some s1 \<and> I s1"
  proof (cases c)
    case (Write packets)
    then show ?thesis using write_keeps [OF pres Cons.prems(2)] by simp
  next
    case (AddSegmentCallback msn cb)
    then have "P cb" using Cons.prems(1) by simp
    then show ?thesis
      using AddSegmentCallback Cons.prems(2) seg inRange_index [OF w]
      by (simp add: addSegmentCallback_total [OF w])
  next
    case (AddPartialCallback msn part' cb)
    then have "P cb" using Cons.prems(1) by simp
    then show ?thesis
      using AddPartialCallback Cons.prems(2) part inRange_index [OF w]
      by (simp add: addPartialCallback_total [OF w] nat_less_iff)
  qed
  then obtain s1 where "call_step X c s = Some s1" "I s1" by blast
  with Cons.IH [of s1] Cons.prems(1) show ?case by simp
qed

lemma partial_ok_addCallback [simp]: "partial_ok (addCallback cb p) = partial_ok p"
  by (simp add: partial_ok_def addCallback_def split: option.splits)

lemma isCompleted_addCallback [simp]: "isCompleted (addCallback cb p) = isCompleted p"
  by (simp add: isCompleted_def addCallback_def)

lemma parts_addCallback [simp]: "parts (addCallback cb seg) = parts seg"
  by (simp add: addCallback_def)

lemma segment_ok_addCallback [simp]: "segment_ok (addCallback cb seg) = segment_ok seg"
  by (simp add: segment_ok_def)

lemma sealed_segment_addCallback [simp]: "sealed_segment (addCallback cb seg) = sealed_segment seg"
  by (simp add: sealed_segment_def)

lemma open_segment_addCallback [simp]: "open_segment (addCallback cb seg) = open_segment seg"
  by (simp add: open_segment_def)

lemma list_all_update: "list_all P xs \<Longrightarrow> P y \<Longrightarrow> list_all P (xs[i := y])"
  by (induction xs arbitrary: i) (auto split: nat.splits)

lemma list_all_nth: "list_all P xs \<Longrightarrow> i < length xs \<Longrightarrow> P (xs ! i)"
  by (simp add: list_all_length)

lemma butlast_update: "butlast (xs[i := y]) = (butlast xs)[i := y]"
  by (induction xs arbitrary: i) (auto split: nat.splits)

lemma last_update:
  "xs \<noteq> [] \<Longrightarrow> last (xs[i := y]) = (if i = length xs - 1 then y else last xs)"
  by (cases xs rule: rev_cases) (auto simp add: list_update_append split: nat.splits)

lemma list_all_update_same:
  "(\<And>x. P (f x) = P x) \<Longrightarrow> list_all P (xs[i := f (xs ! i)]) = list_all P xs"
  by (induction xs arbitrary: i) (auto split: nat.splits)

lemma butlast_update_same:
  "butlast (xs[i := f (xs ! i)]) = (butlast xs)[i := f (butlast xs ! i)]"
  by (induction xs arbitrary: i) (auto split: nat.splits)

lemma last_update_same:
  "(\<And>x. P (f x) = P x) \<Longrightarrow> xs \<noteq> [] \<Longrightarrow> P (last (xs[i := f (xs ! i)])) = P (last xs)"
  by (induction xs arbitrary: i) (auto split: nat.splits)

lemma window_ok_update_same:
  assumes "\<And>x. segment_ok (f x) = segment_ok x"
    and "\<And>x. sealed_segment (f x) = sealed_segment x"
    and "\<And>x. open_segment (f x) = open_segment x"
    and "window_ok s"
  shows "window_ok (s\<lparr>M3U8_Segments := (M3U8_Segments s)[i := f (M3U8_Segments s ! i)]\<rparr>)"
  using assms(4)
  by (cases "M3U8_Segments s = []")
     (simp_all add: window_ok_def list_all_update_same [where f = f and P = segment_ok, OF assms(1)]
      butlast_update_same [where f = f]
      list_all_update_same [where f = f and P = sealed_segment, OF assms(2)]
      last_update_same [where f = f and P = open_segment, OF assms(3)])

lemma window_ok_register_segment: "window_ok s \<Longrightarrow> window_ok (register_segment i cb s)"
  unfolding register_segment_def by (rule window_ok_update_same) simp_all

lemma window_ok_register_partial: "window_ok s \<Longrightarrow> window_ok (register_partial i j cb s)"
  unfolding register_partial_def
proof (rule window_ok_update_same [where f = "\<lambda>seg. seg\<lparr>parts := (parts seg)[j := addCallback cb (parts seg ! j)]\<rparr>"])
  fix x :: Segment
  show "segment_ok (x\<lparr>parts := (parts x)[j := addCallback cb (parts x ! j)]\<rparr>) = segment_ok x"
    by (simp add: segment_ok_def list_all_update_same [where f = "addCallback cb"])
  show "sealed_segment (x\<lparr>parts := (parts x)[j := addCallback cb (parts x ! j)]\<rparr>) = sealed_segment x"
    by (simp add: sealed_segment_def list_all_update_same [where f = "addCallback cb"])
  show "open_segment (x\<lparr>parts := (parts x)[j := addCallback cb (parts x ! j)]\<rparr>) = open_segment x"
    by (cases "parts x = []")
       (simp_all add: open_segment_def butlast_update_same [where f = "addCallback cb"]
          list_all_update_same [where f = "addCallback cb"]
          last_update_same [where f = "addCallback cb" and P = isCompleted])
qed

lemma length_new_segment:
  "window_ok s \<Longrightarrow>
   length (M3U8_Segments (new_segment now b s)) =
     (if length (M3U8_Segments s) + 1 > M3U8_Segments_Length s
      then length (M3U8_Segments s) else length (M3U8_Segments s) + 1)"
  using window_ok_end [of s]
  by (simp add: new_segment_def Let_def window_size_def)

lemma window_ok_core: "core s' = core s \<Longrightarrow> window_ok s \<Longrightarrow> window_ok s'"
  by (simp add: window_ok_def core_def)

lemma preserved_count_ok: "preserved (count_ok N)"
  unfolding preserved_def
proof (intro conjI allI impI)
  fix s assume "count_ok N s" then show "window_ok s" by (simp add: count_ok_def)
next
  fix s s' assume "count_ok N s" "core s' = core s"
  then show "count_ok N s'"
    using window_ok_core [of s' s] by (simp add: count_ok_def) (simp add: core_def)
next
  fix packet s assume "count_ok N s"
  then show "count_ok N (add_packet packet s)"
    by (simp add: count_ok_def window_ok_add_packet) (simp add: add_packet_def)
next
  fix b s assume "count_ok N s" "pts_domain b"
  then show "count_ok N (new_partial b s)"
    by (simp add: count_ok_def window_ok_new_partial) (simp add: new_partial_def)
next
  fix now b s assume a: "count_ok N s" "pts_domain b"
  then have w: "window_ok s" by (simp add: count_ok_def)
  show "count_ok N (new_segment now b s)"
    using a length_new_segment [OF w, of now b] window_ok_new_segment [OF a(2) w, of now]
    by (auto simp add: count_ok_def) (auto simp add: new_segment_def Let_def)
qed

lemma count_ok_new:
  "count_ok (case length_option options of None \<Rightarrow> 3 | Some n \<Rightarrow> n) (new_TSFragmenter options)"
  by (simp add: count_ok_def window_ok_new) (simp add: new_TSFragmenter_def)

lemma count_ok_run:
  "\<exists>s. run X calls (new_TSFragmenter options) = Some s \<and>
       count_ok (case length_option options of None \<Rightarrow> 3 | Some n \<Rightarrow> n) s"
proof (rule run_keeps [where P = "\<lambda>cb. True", OF preserved_count_ok _ _ _ count_ok_new])
  fix i cb s N assume "count_ok N s"
  then show "count_ok N (register_segment i cb s)"
    by (simp add: count_ok_def window_ok_register_segment) (simp add: register_segment_def)
next
  fix i j cb s N assume "count_ok N s"
  then show "count_ok N (register_partial i j cb s)"
    by (simp add: count_ok_def window_ok_register_partial) (simp add: register_partial_def)
qed simp

text \<open>
  Claim C1. Every run from a new fragmenter ends in a state where begin MSN \<open>\<le>\<close> end MSN,
  the window stores end MSN \<open>-\<close> begin MSN segments and at most \<open>N\<close> of them, \<open>N\<close> the
  configured length (3 by default); and when the run has created \<open>K > N\<close> segments, each by
  an IDR access unit that found a PAT and a PMT cached, the window stores exactly \<open>N\<close>
  segments and its begin MSN is \<open>K - N\<close>. Every prefix of a run is a run, so this holds at
  all times.
\<close>

theorem window_holds_N_segments:
  "\<exists>s. run X calls (new_TSFragmenter options) = Some s \<and>
       M3U8_Segments_Length s = (case length_option options of None \<Rightarrow> 3 | Some n \<Rightarrow> n) \<and>
       M3U8_End_Sequence_Number s = created s \<and>
       M3U8_Begin_Sequence_Number s \<le> M3U8_End_Sequence_Number s \<and>
       length (M3U8_Segments s) = M3U8_End_Sequence_Number s - M3U8_Begin_Sequence_Number s \<and>
       length (M3U8_Segments s) \<le> M3U8_Segments_Length s \<and>
       (created s > M3U8_Segments_Length s \<longrightarrow>
          length (M3U8_Segments s) = M3U8_Segments_Length s \<and>
          M3U8_Begin_Sequence_Number s = created s - M3U8_Segments_Length s)"
proof -
  from count_ok_run [of X calls options] obtain s
    where s: "run X calls (new_TSFragmenter options) = Some s"
      "count_ok (case length_option options of None \<Rightarrow> 3 | Some n \<Rightarrow> n) s" by blast
  from s(2) have "M3U8_Segments_Length s = (case length_option options of None \<Rightarrow> 3 | Some n \<Rightarrow> n) \<and>
       M3U8_End_Sequence_Number s = created s \<and>
       M3U8_Begin_Sequence_Number s \<le> M3U8_End_Sequence_Number s \<and>
       length (M3U8_Segments s) = M3U8_End_Sequence_Number s - M3U8_Begin_Sequence_Number s \<and>
       length (M3U8_Segments s) \<le> M3U8_Segments_Length s \<and>
       (created s > M3U8_Segments_Length s \<longrightarrow>
          length (M3U8_Segments s) = M3U8_Segments_Length s \<and>
          M3U8_Begin_Sequence_Number s = created s - M3U8_Segments_Length s)"
    unfolding count_ok_def window_ok_def by auto
  with s(1) show ?thesis by blast
qed

lemma five_created:
  "map_option created (run X0 five_segments (new_TSFragmenter options0)) = Some 5"
  by code_simp

theorem window_holds_N_segments_witness:
  "\<exists>s. run X0 five_segments (new_TSFragmenter options0) = Some s \<and>
       created s = 5 \<and> M3U8_Segments_Length s = 3 \<and> created s > M3U8_Segments_Length s \<and>
       length (M3U8_Segments s) = 3 \<and> M3U8_Begin_Sequence_Number s = 2"
proof -
  from window_holds_N_segments [of X0 five_segments options0] obtain s
    where s: "run X0 five_segments (new_TSFragmenter options0) = Some s"
      "M3U8_Segments_Length s = (case length_option options0 of None \<Rightarrow> 3 | Some n \<Rightarrow> n)"
      "created s > M3U8_Segments_Length s \<longrightarrow>
          length (M3U8_Segments s) = M3U8_Segments_Length s \<and>
          M3U8_Begin_Sequence_Number s = created s - M3U8_Segments_Length s"
    by blast
  have c: "created s = 5" using five_created s(1) by simp
  have n: "M3U8_Segments_Length s = 3" using s(2) by (simp add: options0_def)
  show ?thesis using s(1,3) c n by simp
qed

subsection \<open>The queries\<close>

lemma run_window_ok:
  assumes "run X calls (new_TSFragmenter options) = Some s"
  shows "window_ok s"
  using count_ok_run [of X calls options] assms by (auto simp add: count_ok_def)







subsection \<open>The part cut\<close>


lemma map_upd_last: "(\<And>x. g (f x) = g x) \<Longrightarrow> map g (upd_last f xs) = map g xs"
  by (cases xs rule: rev_cases) simp_all

lemma times_seg_add:
  "map (\<lambda>p. (beginPTS p, endPTS p)) (parts (seg_add packet seg))
   = map (\<lambda>p. (beginPTS p, endPTS p)) (parts seg)"
  by (simp add: seg_add_def map_upd_last addPacket_def)

lemma timeline_add_packet [simp]: "timeline (add_packet packet s) = timeline s"
  by (simp add: timeline_def add_packet_def map_upd_last times_seg_add)

lemma timeline_fold_add_packet [simp]: "timeline (fold add_packet packets s) = timeline s"
  by (induction packets arbitrary: s) simp_all

lemma timeline_Video_Packets [simp]: "timeline (s\<lparr>Video_Packets := v\<rparr>) = timeline s"
  by (simp add: timeline_def)








subsection \<open>The program association table\<close>

lemma count_step:
  assumes "(0::int) < d"
  shows "(nat d + 3) div 4 = Suc ((nat (d - 4) + 3) div 4)"
proof (cases "4 \<le> d")
  case True
  then have "nat d = nat (d - 4) + 4" by simp
  then show ?thesis by simp
next
  case False
  with assms have "nat (d - 4) = 0" "nat d = 1 \<or> nat d = 2 \<or> nat d = 3" by auto
  then show ?thesis by auto
qed

lemma PAT_offsets_step:
  assumes "int i < int (BASIC_HEADER_SIZE X) + int (section_length X PAT) - int (CRC_SIZE X)"
  shows "PAT_offsets X PAT i = i # PAT_offsets X PAT (i + 4)"
proof -
  let ?b = "int (BASIC_HEADER_SIZE X) + int (section_length X PAT) - int (CRC_SIZE X)"
  have "0 < ?b - int i" using assms by simp
  from count_step [OF this]
  have n: "(nat (?b - int i) + 3) div 4 = Suc ((nat (?b - int (i + 4)) + 3) div 4)"
    by (simp add: algebra_simps)
  show ?thesis
    unfolding PAT_offsets_def n
    by (simp add: upt_rec [of 0] map_Suc_upt [symmetric] del: upt_Suc)
qed

lemma PAT_offsets_stop:
  assumes "\<not> int i < int (BASIC_HEADER_SIZE X) + int (section_length X PAT) - int (CRC_SIZE X)"
  shows "PAT_offsets X PAT i = []"
  using assms by (simp add: PAT_offsets_def)

lemma PAT_scan_step:
  assumes "int i < int (BASIC_HEADER_SIZE X) + int (section_length X PAT) - int (CRC_SIZE X)"
  shows "PAT_scan X PAT i s =
         PAT_scan X PAT (i + 4)
           (s\<lparr>PAT_TargetPMTPid := PAT_bind (PAT_TargetSID s) (PAT_TargetPMTPid s) (PAT_entry PAT i)\<rparr>)"
  using assms
  by (subst PAT_scan.simps) (simp add: Let_def PAT_bind_def PAT_entry_def)

lemma PAT_scan_stop:
  assumes "\<not> int i < int (BASIC_HEADER_SIZE X) + int (section_length X PAT) - int (CRC_SIZE X)"
  shows "PAT_scan X PAT i s = s"
  using assms by (subst PAT_scan.simps) simp

lemma PAT_scan_fold:
  "PAT_scan X PAT i s =
   s\<lparr>PAT_TargetPMTPid :=
       foldl (PAT_bind (PAT_TargetSID s)) (PAT_TargetPMTPid s)
         (map (PAT_entry PAT) (PAT_offsets X PAT i))\<rparr>"
proof (induction "PAT_offsets X PAT i" arbitrary: i s)
  case Nil
  have "\<not> int i < int (BASIC_HEADER_SIZE X) + int (section_length X PAT) - int (CRC_SIZE X)"
  proof
    assume "int i < int (BASIC_HEADER_SIZE X) + int (section_length X PAT) - int (CRC_SIZE X)"
    then have "PAT_offsets X PAT i = i # PAT_offsets X PAT (i + 4)" by (rule PAT_offsets_step)
    with Nil show False by simp
  qed
  then show ?case
    using Nil by (simp add: PAT_scan_stop PAT_offsets_stop)
next
  case (Cons a as)
  have lt: "int i < int (BASIC_HEADER_SIZE X) + int (section_length X PAT) - int (CRC_SIZE X)"
  proof (rule ccontr)
    assume "\<not> int i < int (BASIC_HEADER_SIZE X) + int (section_length X PAT) - int (CRC_SIZE X)"
    then have "PAT_offsets X PAT i = []" by (rule PAT_offsets_stop)
    with Cons.hyps(2) show False by simp
  qed
  then have "as = PAT_offsets X PAT (i + 4)"
    using Cons.hyps(2) PAT_offsets_step [OF lt] by simp
  from Cons.hyps(1) [OF this] show ?case
    by (simp add: PAT_scan_step [OF lt] PAT_offsets_step [OF lt])
qed

lemma PAT_bind_skip: "snd e = 0x10 \<Longrightarrow> PAT_bind target bound e = bound"
  by (simp add: PAT_bind_def)

lemma PAT_bind_first: "snd e \<noteq> 0x10 \<Longrightarrow> PAT_bind None None e = Some (snd e)"
  by (simp add: PAT_bind_def)

lemma PAT_bind_keep: "PAT_bind None (Some v) e = Some v"
  by (simp add: PAT_bind_def)

lemma PAT_bind_match:
  "snd e \<noteq> 0x10 \<Longrightarrow> fst e = sid \<Longrightarrow> PAT_bind (Some sid) bound e = Some (snd e)"
  by (simp add: PAT_bind_def)

lemma PAT_bind_other: "fst e \<noteq> sid \<Longrightarrow> PAT_bind (Some sid) bound e = bound"
  by (simp add: PAT_bind_def)

lemma PAT_bind_None_Some: "foldl (PAT_bind None) (Some v) es = Some v"
  by (induction es) (simp_all add: PAT_bind_keep)

lemma PAT_bind_None: "foldl (PAT_bind None) None es = PAT_select None es"
proof (induction es)
  case Nil
  show ?case by (simp add: PAT_select_def)
next
  case (Cons e es)
  show ?case
  proof (cases "snd e = 0x10")
    case True
    then show ?thesis using Cons.IH by (simp add: PAT_bind_skip PAT_select_def)
  next
    case False
    then show ?thesis by (simp add: PAT_bind_first PAT_bind_None_Some PAT_select_def)
  qed
qed

lemma PAT_bind_Some:
  "foldl (PAT_bind (Some sid)) bound es =
   (case filter (\<lambda>e. fst e = sid) (filter (\<lambda>e. snd e \<noteq> 0x10) es) of
      [] \<Rightarrow> bound
    | e # es' \<Rightarrow> Some (snd (last (e # es'))))"
proof (induction es arbitrary: bound)
  case Nil
  show ?case by simp
next
  case (Cons e es)
  consider "snd e = 0x10" | "snd e \<noteq> 0x10" "fst e = sid" | "snd e \<noteq> 0x10" "fst e \<noteq> sid"
    by blast
  then show ?case
  proof cases
    case 1
    then show ?thesis by (simp add: PAT_bind_skip Cons.IH)
  next
    case 2
    then show ?thesis by (simp add: PAT_bind_match Cons.IH split: list.splits)
  next
    case 3
    then show ?thesis by (simp add: PAT_bind_other Cons.IH)
  qed
qed

lemma PAT_bind_select: "foldl (PAT_bind target) None es = PAT_select target es"
proof (cases target)
  case None
  then show ?thesis by (simp add: PAT_bind_None)
next
  case (Some sid)
  then show ?thesis by (simp add: PAT_bind_Some PAT_select_def)
qed

lemma Add_Packet_frame:
  "M3U8_Add_Packet packet s = Some s' \<Longrightarrow> s' = s\<lparr>M3U8_Segments := M3U8_Segments s'\<rparr>"
  by (auto simp add: M3U8_Add_Packet_def Let_def split: if_splits bind_splits)

lemma Add_Packets_frame:
  "forEach M3U8_Add_Packet packets s = Some s' \<Longrightarrow> s' = s\<lparr>M3U8_Segments := M3U8_Segments s'\<rparr>"
proof (induction packets arbitrary: s)
  case Nil
  then show ?case by simp
next
  case (Cons p ps)
  then obtain s1 where s1: "M3U8_Add_Packet p s = Some s1" "forEach M3U8_Add_Packet ps s1 = Some s'"
    by (auto split: option.splits)
  from Add_Packet_frame [OF s1(1)] Cons.IH [OF s1(2)]
  have "s' = (s\<lparr>M3U8_Segments := M3U8_Segments s1\<rparr>)\<lparr>M3U8_Segments := M3U8_Segments s'\<rparr>"
    by simp
  then show ?case by simp
qed

lemma segments_update_fields:
  assumes "s' = s\<lparr>M3U8_Segments := x\<rparr>"
  shows "PAT_TargetPMTPid s' = PAT_TargetPMTPid s" "PAT_lastPAT s' = PAT_lastPAT s"
    "PAT_TargetSID s' = PAT_TargetSID s" "PMT_lastPMT s' = PMT_lastPMT s"
    "M3U8_Initial_IDR_Detected s' = M3U8_Initial_IDR_Detected s"
    "Video_Packets s' = Video_Packets s" "PMT_VideoPid s' = PMT_VideoPid s"
  by (simp_all add: assms)

lemma Add_PAT_frame:
  assumes "M3U8_Add_PAT X PAT s = Some s'"
  shows "PAT_TargetPMTPid s' = PAT_TargetPMTPid s \<and> PAT_lastPAT s' = PAT_lastPAT s \<and>
         PAT_TargetSID s' = PAT_TargetSID s"
  using segments_update_fields(1-3) [OF Add_Packets_frame [OF assms [unfolded M3U8_Add_PAT_def Let_def]]]
  by simp

lemma PAT_scan_fields:
  "PAT_lastPAT (PAT_scan X PAT i s) = PAT_lastPAT s \<and>
   PAT_TargetSID (PAT_scan X PAT i s) = PAT_TargetSID s"
  by (simp add: PAT_scan_fold)

lemma on_PAT_binding:
  assumes "on_PAT X PAT s = Some s'" "CRC32 X PAT = 0"
  shows "PAT_TargetPMTPid s' = PAT_select (PAT_TargetSID s) (PAT_entries X PAT) \<and>
         PAT_lastPAT s' = Some PAT \<and> PAT_TargetSID s' = PAT_TargetSID s"
proof -
  define s2 where "s2 = PAT_scan X PAT (EXTENDED_HEADER_SIZE X)
                          (s\<lparr>PAT_lastPAT := Some PAT, PAT_TargetPMTPid := None\<rparr>)"
  define s3 where "s3 = (if \<not> M3U8_Initial_PAT_Detected s2
                         then s2\<lparr>M3U8_Initial_PAT_Detected := True\<rparr> else s2)"
  have eq: "on_PAT X PAT s = (if M3U8_Initial_IDR_Detected s3 then M3U8_Add_PAT X PAT s3 else Some s3)"
    using assms(2) by (simp add: on_PAT_def Let_def s2_def s3_def)
  have f2: "PAT_TargetPMTPid s2 = PAT_select (PAT_TargetSID s) (PAT_entries X PAT)"
    "PAT_lastPAT s2 = Some PAT" "PAT_TargetSID s2 = PAT_TargetSID s"
    by (simp_all add: s2_def PAT_scan_fold PAT_bind_select PAT_entries_def)
  then have f3: "PAT_TargetPMTPid s3 = PAT_select (PAT_TargetSID s) (PAT_entries X PAT)"
    "PAT_lastPAT s3 = Some PAT" "PAT_TargetSID s3 = PAT_TargetSID s"
    by (simp_all add: s3_def)
  show ?thesis
  proof (cases "M3U8_Initial_IDR_Detected s3")
    case True
    with eq assms(1) have "M3U8_Add_PAT X PAT s3 = Some s'" by simp
    from Add_PAT_frame [OF this] f3 show ?thesis by simp
  next
    case False
    with eq assms(1) have "s' = s3" by simp
    with f3 show ?thesis by simp
  qed
qed

lemma preserved_no_target: "preserved no_target"
  unfolding preserved_def
proof (intro conjI allI impI)
  fix s assume "no_target s" then show "window_ok s" by (simp add: no_target_def)
next
  fix s s' assume "no_target s" "core s' = core s"
  then show "no_target s'"
    using window_ok_core [of s' s] by (simp add: no_target_def) (simp add: core_def)
next
  fix packet s assume "no_target s"
  then show "no_target (add_packet packet s)"
    by (simp add: no_target_def window_ok_add_packet) (simp add: add_packet_def)
next
  fix b s assume "no_target s" "pts_domain b"
  then show "no_target (new_partial b s)"
    by (simp add: no_target_def window_ok_new_partial) (simp add: new_partial_def)
next
  fix now b s assume "no_target s" "pts_domain b"
  then show "no_target (new_segment now b s)"
    by (simp add: no_target_def window_ok_new_segment) (simp add: new_segment_def Let_def)
qed

lemma no_target_run:
  "\<exists>s. run X calls (new_TSFragmenter options) = Some s \<and> no_target s"
proof (rule run_keeps [where P = "\<lambda>cb. True", OF preserved_no_target])
  fix i cb s assume "no_target s"
  then show "no_target (register_segment i cb s)"
    by (simp add: no_target_def window_ok_register_segment) (simp add: register_segment_def)
next
  fix i j cb s assume "no_target s"
  then show "no_target (register_partial i j cb s)"
    by (simp add: no_target_def window_ok_register_partial) (simp add: register_partial_def)
next
  show "no_target (new_TSFragmenter options)"
    by (simp add: no_target_def window_ok_new) (simp add: new_TSFragmenter_def)
qed simp

text \<open>
  Claim C8, amended. In a state reached by a run the target service id is unset: the
  constructor reads the window length and the part target only, and nothing sets the
  target later. Processing a PAT section with a valid checksum there caches the section
  and binds the PMT PID to the first entry whose PID is not \<open>0x10\<close>, or to nothing when
  there is no such entry, whatever was bound before. In any state, with any target, the
  scan binds what \<open>PAT_select\<close> describes: with a target, the entry with its program
  number wherever it stands among the entries.
\<close>

theorem PAT_binding:
  assumes "run X calls (new_TSFragmenter options) = Some s" and "CRC32 X PAT = 0"
  shows "PAT_TargetSID s = None \<and>
         (\<exists>s'. on_PAT X PAT s = Some s' \<and> PAT_lastPAT s' = Some PAT \<and>
               PAT_TargetPMTPid s' = PAT_select None (PAT_entries X PAT)) \<and>
         (\<forall>t t'. on_PAT X PAT t = Some t' \<longrightarrow>
               PAT_TargetPMTPid t' = PAT_select (PAT_TargetSID t) (PAT_entries X PAT))"
proof -
  from no_target_run [of X calls options] assms(1) have n: "no_target s" by auto
  from on_PAT_keeps [OF preserved_no_target n, of X PAT] obtain s'
    where s': "on_PAT X PAT s = Some s'" by blast
  from on_PAT_binding [OF s' assms(2)] n
  have "PAT_lastPAT s' = Some PAT \<and> PAT_TargetPMTPid s' = PAT_select None (PAT_entries X PAT)"
    by (simp add: no_target_def)
  with s' n on_PAT_binding [OF _ assms(2)] show ?thesis
    by (auto simp add: no_target_def)
qed

lemma pat2_entries: "CRC32 X0 pat2 = 0 \<and> PAT_entries X0 pat2 = [(1, 0x100), (2, 0x200)]"
  by code_simp

theorem PAT_binding_witness:
  "\<exists>s. run X0 first_segment (new_TSFragmenter options0) = Some s \<and> CRC32 X0 pat2 = 0 \<and>
       PAT_TargetSID s = None \<and>
       (\<exists>s'. on_PAT X0 pat2 s = Some s' \<and> PAT_lastPAT s' = Some pat2 \<and>
             PAT_TargetPMTPid s' = Some 0x100)"
proof -
  from count_ok_run [of X0 first_segment options0] obtain s
    where s: "run X0 first_segment (new_TSFragmenter options0) = Some s" by blast
  have c: "CRC32 X0 pat2 = 0" using pat2_entries by simp
  have "PAT_select None (PAT_entries X0 pat2) = Some 0x100"
    using pat2_entries by (simp add: PAT_select_def)
  with PAT_binding [OF s c] s c show ?thesis by auto
qed

text \<open>
  Claim C8 as stated fails: a fragmenter constructed with an options object that names
  the service 2 binds the PMT PID of the program 1, the first entry of the PAT, and not
  the PID \<open>0x200\<close> of the program 2.
\<close>

theorem target_service_id_ignored:
  "map_option PAT_TargetPMTPid
     (run X0 [Write [pkt 0 [0x47] [pat2]]]
        (new_TSFragmenter \<lparr>length_option = None, partTarget = None, targetSID = Some 2\<rparr>))
   = Some (Some 0x100) \<and>
   PAT_select (Some 2) (PAT_entries X0 pat2) = Some 0x200"
  by code_simp

subsection \<open>Packets before the first IDR\<close>

lemma forEach_append:
  "forEach f (xs @ ys) s = Option.bind (forEach f xs s) (forEach f ys)"
  by (induction xs arbitrary: s) (simp_all split: option.splits)







subsection \<open>The rendered playlist\<close>

text \<open>
  Claim C6 fails on the code: the preload hint of the open partial 0 of the segment 0 is
  rendered with the query key \<open>part.ts=\<close>, where the line of a sealed partial has
  \<open>part=\<close>.
\<close>

theorem preload_hint_query_key:
  "Option.bind (run X0 first_segment (new_TSFragmenter options0)) getManifest =
   Some (''#EXTM3U'' @ newline
      @ ''#EXT-X-VERSION:6'' @ newline
      @ ''#EXT-X-TARGETDURATION:1'' @ newline
      @ ''#EXT-X-PART-INF:PART-TARGET=1.000'' @ newline
      @ ''#EXT-X-SERVER-CONTROL:CAN-BLOCK-RELOAD=YES,PART-HOLD-BACK=3.000'' @ newline
      @ ''#EXT-X-MEDIA-SEQUENCE:0'' @ newline
      @ newline
      @ ''#EXT-X-PROGRAM-DATE-TIME:2020-01-01T00:00:00.000Z'' @ newline
      @ ''#EXT-X-PRELOAD-HINT:TYPE=PART,URI='' @ [CHR 0x22] @ ''part?msn=0&part.ts=0'' @ [CHR 0x22]
      @ '',INDEPENDENT=YES'' @ newline)"
  by code_simp


subsection \<open>The aggregate duration of a sealed segment\<close>




lemma show_nat_not_Nil: "show_nat n \<noteq> []"
  by (subst show_nat.simps) simp
















lemma sealed_in_window:
  assumes "window_ok s" "i < length (M3U8_Segments s)" "isCompleted (M3U8_Segments s ! i)"
  shows "sealed_segment (M3U8_Segments s ! i)"
proof -
  have ne: "M3U8_Segments s \<noteq> []" using assms(2) by auto
  with assms(1) have b: "list_all sealed_segment (butlast (M3U8_Segments s))"
    and l: "open_segment (last (M3U8_Segments s))"
    by (simp_all add: window_ok_def)
  have "i \<noteq> length (M3U8_Segments s) - 1"
    using l assms(3) ne by (auto simp add: open_segment_def last_conv_nth)
  with assms(2) have i: "i < length (butlast (M3U8_Segments s))" by simp
  then have "sealed_segment (butlast (M3U8_Segments s) ! i)"
    using b by (simp add: list_all_length)
  then show ?thesis using i by (simp add: nth_butlast)
qed






subsection \<open>Completion callbacks\<close>

lemma count_concat_upd_last:
  "xs \<noteq> [] \<Longrightarrow>
   count_list (concat (map f (upd_last g xs))) c + count_list (f (last xs)) c
   = count_list (concat (map f xs)) c + count_list (f (g (last xs))) c"
  by (cases xs rule: rev_cases) simp_all

lemma segment_callbacks_seg_add [simp]: "segment_callbacks (seg_add packet seg) = segment_callbacks seg"
  by (cases "parts seg" rule: rev_cases)
     (simp_all add: segment_callbacks_def seg_add_def addPacket_def)

lemma all_callbacks_add_packet [simp]: "all_callbacks (add_packet packet s) = all_callbacks s"
  by (cases "M3U8_Segments s" rule: rev_cases) (simp_all add: all_callbacks_def add_packet_def)

lemma last_part_add_packet:
  "M3U8_Segments s \<noteq> [] \<Longrightarrow> parts (last (M3U8_Segments s)) \<noteq> [] \<Longrightarrow>
   length (parts (last (M3U8_Segments (add_packet packet s)))) = length (parts (last (M3U8_Segments s))) \<and>
   complete_callbacks (last (parts (last (M3U8_Segments (add_packet packet s)))))
     = complete_callbacks (last (parts (last (M3U8_Segments s))))"
  by (cases "M3U8_Segments s" rule: rev_cases, simp)
     (cases "parts (last (M3U8_Segments s))" rule: rev_cases,
      simp_all add: add_packet_def seg_add_def addPacket_def)

lemma tracked_add_packet:
  assumes "tracked cb m j s"
  shows "tracked cb m j (add_packet packet s)"
proof -
  have w: "window_ok s" using assms by (auto simp add: tracked_def pending_def delivered_def)
  have f: "fired (add_packet packet s) = fired s"
    "M3U8_End_Sequence_Number (add_packet packet s) = M3U8_End_Sequence_Number s"
    "(M3U8_Segments (add_packet packet s) = []) = (M3U8_Segments s = [])"
    by (simp_all add: add_packet_def)
  have l: "M3U8_Segments s \<noteq> [] \<Longrightarrow>
           length (parts (last (M3U8_Segments (add_packet packet s)))) = length (parts (last (M3U8_Segments s))) \<and>
           complete_callbacks (last (parts (last (M3U8_Segments (add_packet packet s)))))
             = complete_callbacks (last (parts (last (M3U8_Segments s))))"
    using last_part_add_packet window_ok_last_parts [OF w] by blast
  show ?thesis
    using assms window_ok_add_packet [OF w, of packet] l
    by (auto simp add: tracked_def pending_def delivered_def f)
qed

lemma window_ok_decompose:
  assumes "window_ok s" "M3U8_Segments s \<noteq> []"
  obtains ys y ps q where "M3U8_Segments s = ys @ [y]" "parts y = ps @ [q]"
proof -
  obtain ys y where a: "M3U8_Segments s = ys @ [y]"
    using assms(2) by (cases "M3U8_Segments s" rule: rev_cases) auto
  with window_ok_last_parts [OF assms] have "parts y \<noteq> []" by simp
  then obtain ps q where "parts y = ps @ [q]"
    by (cases "parts y" rule: rev_cases) auto
  with a that show ?thesis by blast
qed

lemma member_count: "c \<in> set xs \<Longrightarrow> 0 < count_list xs c"
  using count_list_0_iff [of xs c] by auto

lemma tracked_new_partial:
  assumes "tracked cb m j s" "pts_domain b"
  shows "tracked cb m j (new_partial b s)"
proof -
  have w: "window_ok s" using assms(1) by (auto simp add: tracked_def pending_def delivered_def)
  have w': "window_ok (new_partial b s)" by (rule window_ok_new_partial [OF assms(2) w])
  show ?thesis
  proof (cases "M3U8_Segments s = []")
    case True
    then have "new_partial b s = s\<lparr>M3U8_Segments := [], fired := fired s\<rparr>"
      by (simp add: new_partial_def last_part_callbacks_def)
    then show ?thesis
      using assms(1) True w'
      by (simp add: tracked_def pending_def delivered_def all_callbacks_def)
  next
    case False
    from window_ok_decompose [OF w False] obtain ys y ps q
      where d: "M3U8_Segments s = ys @ [y]" "parts y = ps @ [q]" by blast
    have segs: "M3U8_Segments (new_partial b s)
                = ys @ [y\<lparr>parts := ps @ [seal b q, new_PartialSegment b None]\<rparr>]"
      by (simp add: new_partial_def d seg_cut_def)
    have fired: "fired (new_partial b s) = fired s @ complete_callbacks q"
      by (simp add: new_partial_def last_part_callbacks_def d)
    have e: "M3U8_End_Sequence_Number (new_partial b s) = M3U8_End_Sequence_Number s"
      by (simp add: new_partial_def)
    have before: "count_list (all_callbacks s) cb
                  = count_list (concat (map segment_callbacks ys)) cb + count_list (complete_callbacks y) cb
                    + count_list (concat (map complete_callbacks ps)) cb
                    + count_list (complete_callbacks q) cb"
      by (simp add: all_callbacks_def d segment_callbacks_def)
    have after: "count_list (all_callbacks (new_partial b s)) cb
                 = count_list (concat (map segment_callbacks ys)) cb + count_list (complete_callbacks y) cb
                   + count_list (concat (map complete_callbacks ps)) cb"
      by (simp add: all_callbacks_def segs segment_callbacks_def seal_def
          PartialSegment_complete_def new_PartialSegment_def)
    from assms(1) show ?thesis
      unfolding tracked_def
    proof
      assume p: "pending cb m j s"
      then have "0 < count_list (complete_callbacks q) cb"
        by (intro member_count) (simp add: pending_def d)
      with p before have "count_list (complete_callbacks q) cb = 1"
        "count_list (all_callbacks (new_partial b s)) cb = 0"
        unfolding after by (simp_all add: pending_def)
      with p have "delivered cb m j (new_partial b s)"
        using w' by (simp add: delivered_def pending_def e fired segs d)
      then show "pending cb m j (new_partial b s) \<or> delivered cb m j (new_partial b s)" ..
    next
      assume p: "delivered cb m j s"
      with before have "count_list (complete_callbacks q) cb = 0"
        "count_list (all_callbacks (new_partial b s)) cb = 0"
        unfolding after by (simp_all add: delivered_def)
      with p have "delivered cb m j (new_partial b s)"
        using w' False by (auto simp add: delivered_def e fired segs d)
      then show "pending cb m j (new_partial b s) \<or> delivered cb m j (new_partial b s)" ..
    qed
  qed
qed

lemma count_concat_tl:
  "count_list (concat (map f (tl xs))) c \<le> count_list (concat (map f xs)) c"
  by (cases xs) simp_all

lemma new_segment_fields:
  "fired (new_segment now b s) = fired s @ last_segment_callbacks s @ last_part_callbacks s"
  "M3U8_End_Sequence_Number (new_segment now b s) = M3U8_End_Sequence_Number s + 1"
  by (simp_all add: new_segment_def Let_def)

lemma new_segment_callbacks:
  "count_list (all_callbacks (new_segment now b s)) c
   \<le> count_list (concat (map segment_callbacks
         (upd_last (seg_seal b) (M3U8_Segments s) @ [new_Segment now b (Some True)]))) c"
  using count_concat_tl [of segment_callbacks
      "upd_last (seg_seal b) (M3U8_Segments s) @ [new_Segment now b (Some True)]" c]
  by (simp add: new_segment_def Let_def all_callbacks_def)

lemma segment_callbacks_new_Segment [simp]: "segment_callbacks (new_Segment now b h) = []"
  by (simp add: segment_callbacks_def new_Segment_def Segment_newPartial_def new_PartialSegment_def)

lemma tracked_new_segment:
  assumes "tracked cb m j s" "pts_domain b"
  shows "tracked cb m j (new_segment now b s)"
proof -
  have w: "window_ok s" using assms(1) by (auto simp add: tracked_def pending_def delivered_def)
  have w': "window_ok (new_segment now b s)" by (rule window_ok_new_segment [OF assms(2) w])
  have pos: "m + 1 < M3U8_End_Sequence_Number (new_segment now b s)"
    using assms(1) by (auto simp add: tracked_def pending_def delivered_def new_segment_fields)
  show ?thesis
  proof (cases "M3U8_Segments s = []")
    case True
    then have "fired (new_segment now b s) = fired s"
      "count_list (all_callbacks (new_segment now b s)) cb \<le> 0"
      using new_segment_callbacks [of now b s cb]
      by (simp_all add: new_segment_fields last_segment_callbacks_def last_part_callbacks_def)
    then have "delivered cb m j (new_segment now b s)"
      using assms(1) True w' pos by (simp add: tracked_def pending_def delivered_def)
    then show ?thesis by (simp add: tracked_def)
  next
    case False
    from window_ok_decompose [OF w False] obtain ys y ps q
      where d: "M3U8_Segments s = ys @ [y]" "parts y = ps @ [q]" by blast
    have fired: "fired (new_segment now b s) = fired s @ complete_callbacks y @ complete_callbacks q"
      by (simp add: new_segment_fields last_segment_callbacks_def last_part_callbacks_def d)
    have before: "count_list (all_callbacks s) cb
                  = count_list (concat (map segment_callbacks ys)) cb + count_list (complete_callbacks y) cb
                    + count_list (concat (map complete_callbacks ps)) cb
                    + count_list (complete_callbacks q) cb"
      by (simp add: all_callbacks_def d segment_callbacks_def)
    have after: "count_list (all_callbacks (new_segment now b s)) cb
                 \<le> count_list (concat (map segment_callbacks ys)) cb
                   + count_list (concat (map complete_callbacks ps)) cb"
      using new_segment_callbacks [of now b s cb]
      by (simp add: d segment_callbacks_def seg_seal_def seal_def PartialSegment_complete_def
          new_Segment_def Segment_newPartial_def new_PartialSegment_def)
    from assms(1) have "delivered cb m j (new_segment now b s)"
      unfolding tracked_def
    proof
      assume p: "pending cb m j s"
      then have "0 < count_list (complete_callbacks q) cb"
        by (intro member_count) (simp add: pending_def d)
      with p before after have "count_list (complete_callbacks q) cb = 1"
        "count_list (complete_callbacks y) cb = 0"
        "count_list (all_callbacks (new_segment now b s)) cb = 0"
        by (simp_all add: pending_def)
      with p show ?thesis
        using w' pos by (simp add: delivered_def pending_def fired)
    next
      assume p: "delivered cb m j s"
      with before after have "count_list (complete_callbacks q) cb = 0"
        "count_list (complete_callbacks y) cb = 0"
        "count_list (all_callbacks (new_segment now b s)) cb = 0"
        by (simp_all add: delivered_def)
      with p show ?thesis
        using w' pos by (simp add: delivered_def fired)
    qed
    then show ?thesis by (simp add: tracked_def)
  qed
qed

lemma preserved_tracked: "preserved (tracked cb m j)"
  unfolding preserved_def
proof (intro conjI allI impI)
  fix s assume "tracked cb m j s"
  then show "window_ok s" by (auto simp add: tracked_def pending_def delivered_def)
next
  fix s s' assume "tracked cb m j s" "core s' = core s"
  then show "tracked cb m j s'"
    using window_ok_core [of s' s]
    by (auto simp add: tracked_def pending_def delivered_def all_callbacks_def core_def)
qed (simp_all add: tracked_add_packet tracked_new_partial tracked_new_segment)

lemma count_concat_update_same:
  "(\<And>x. count_list (f (g x)) c = count_list (f x) c) \<Longrightarrow>
   count_list (concat (map f (xs[i := g (xs ! i)]))) c = count_list (concat (map f xs)) c"
  by (induction xs arbitrary: i) (auto split: nat.splits)

lemma tracked_update_same:
  assumes t: "tracked cb m j s"
    and w: "window_ok (s\<lparr>M3U8_Segments := (M3U8_Segments s)[i := g (M3U8_Segments s ! i)]\<rparr>)"
    and len: "\<And>x. length (parts (g x)) = length (parts x)"
    and mem: "\<And>x. (cb \<in> set (complete_callbacks (last (parts (g x)))))
                    = (cb \<in> set (complete_callbacks (last (parts x))))"
    and cnt: "\<And>x. count_list (segment_callbacks (g x)) cb = count_list (segment_callbacks x) cb"
  shows "tracked cb m j (s\<lparr>M3U8_Segments := (M3U8_Segments s)[i := g (M3U8_Segments s ! i)]\<rparr>)"
proof -
  let ?xs = "M3U8_Segments s"
  let ?s' = "s\<lparr>M3U8_Segments := ?xs[i := g (?xs ! i)]\<rparr>"
  have c: "count_list (all_callbacks ?s') cb = count_list (all_callbacks s) cb"
    by (simp add: all_callbacks_def count_concat_update_same [where f = segment_callbacks, OF cnt])
  have l1: "?xs \<noteq> [] \<Longrightarrow>
            (j + 1 = length (parts (last (?xs[i := g (?xs ! i)])))) = (j + 1 = length (parts (last ?xs)))"
    by (rule last_update_same [where P = "\<lambda>x. j + 1 = length (parts x)"]) (simp_all add: len)
  have l2: "?xs \<noteq> [] \<Longrightarrow>
            (j + 1 < length (parts (last (?xs[i := g (?xs ! i)])))) = (j + 1 < length (parts (last ?xs)))"
    by (rule last_update_same [where P = "\<lambda>x. j + 1 < length (parts x)"]) (simp_all add: len)
  have l3: "?xs \<noteq> [] \<Longrightarrow>
            (cb \<in> set (complete_callbacks (last (parts (last (?xs[i := g (?xs ! i)]))))))
            = (cb \<in> set (complete_callbacks (last (parts (last ?xs)))))"
    by (rule last_update_same [where P = "\<lambda>x. cb \<in> set (complete_callbacks (last (parts x)))"])
       (simp_all add: mem)
  show ?thesis
    using t w l1 l2 l3
    by (auto simp add: tracked_def pending_def delivered_def c)
qed

lemma tracked_register_segment:
  assumes "tracked cb m j s" "cb' \<noteq> cb"
  shows "tracked cb m j (register_segment i cb' s)"
  unfolding register_segment_def
proof (rule tracked_update_same [OF assms(1)])
  have "window_ok s" using assms(1) by (auto simp add: tracked_def pending_def delivered_def)
  then show "window_ok (s\<lparr>M3U8_Segments :=
      (M3U8_Segments s)[i := addCallback cb' (M3U8_Segments s ! i)]\<rparr>)"
    using window_ok_register_segment [of s i cb'] by (simp add: register_segment_def)
next
  fix x :: Segment
  show "count_list (segment_callbacks (addCallback cb' x)) cb = count_list (segment_callbacks x) cb"
    using assms(2) by (simp add: segment_callbacks_def addCallback_def)
qed simp_all

lemma tracked_register_partial:
  assumes "tracked cb m j s" "cb' \<noteq> cb"
  shows "tracked cb m j (register_partial i k cb' s)"
  unfolding register_partial_def
proof (rule tracked_update_same
    [where g = "\<lambda>seg. seg\<lparr>parts := (parts seg)[k := addCallback cb' (parts seg ! k)]\<rparr>",
     OF assms(1)])
  have "window_ok s" using assms(1) by (auto simp add: tracked_def pending_def delivered_def)
  then show "window_ok (s\<lparr>M3U8_Segments :=
      (M3U8_Segments s)[i := (M3U8_Segments s ! i)
         \<lparr>parts := (parts (M3U8_Segments s ! i))[k := addCallback cb' (parts (M3U8_Segments s ! i) ! k)]\<rparr>]\<rparr>)"
    using window_ok_register_partial [of s i k cb'] by (simp add: register_partial_def)
next
  fix x :: Segment
  show "length (parts (x\<lparr>parts := (parts x)[k := addCallback cb' (parts x ! k)]\<rparr>)) = length (parts x)"
    by simp
  have m: "\<And>p :: PartialSegment. (cb \<in> set (complete_callbacks (addCallback cb' p)))
                = (cb \<in> set (complete_callbacks p))"
    using assms(2) by (auto simp add: addCallback_def)
  show "(cb \<in> set (complete_callbacks (last (parts (x\<lparr>parts := (parts x)[k := addCallback cb' (parts x ! k)]\<rparr>)))))
        = (cb \<in> set (complete_callbacks (last (parts x))))"
  proof (cases "parts x = []")
    case True
    then show ?thesis by simp
  next
    case False
    from last_update_same [where P = "\<lambda>p. cb \<in> set (complete_callbacks p)"
        and f = "addCallback cb'", OF m False]
    show ?thesis by simp
  qed
  have "\<And>p :: PartialSegment. count_list (complete_callbacks (addCallback cb' p)) cb
          = count_list (complete_callbacks p) cb"
    using assms(2) by (simp add: addCallback_def)
  from count_concat_update_same [where f = complete_callbacks and g = "addCallback cb'", OF this]
  show "count_list (segment_callbacks (x\<lparr>parts := (parts x)[k := addCallback cb' (parts x ! k)]\<rparr>)) cb
        = count_list (segment_callbacks x) cb"
    by (simp add: segment_callbacks_def)
qed

lemma open_partial_is_last:
  assumes w: "window_ok s" and i: "i < length (M3U8_Segments s)"
    and k: "k < length (parts (M3U8_Segments s ! i))"
    and o: "\<not> isCompleted (parts (M3U8_Segments s ! i) ! k)"
  shows "i + 1 = length (M3U8_Segments s) \<and> k + 1 = length (parts (last (M3U8_Segments s)))"
proof -
  have ne: "M3U8_Segments s \<noteq> []" using i by auto
  have "\<not> sealed_segment (M3U8_Segments s ! i)"
    using k o by (auto simp add: sealed_segment_def list_all_length)
  then have "\<not> isCompleted (M3U8_Segments s ! i)"
    using sealed_in_window [OF w i] by blast
  have il: "i + 1 = length (M3U8_Segments s)"
  proof (rule ccontr)
    assume "i + 1 \<noteq> length (M3U8_Segments s)"
    with i have "i < length (butlast (M3U8_Segments s))" by simp
    moreover have "list_all sealed_segment (butlast (M3U8_Segments s))"
      using w ne by (simp add: window_ok_def)
    ultimately have "sealed_segment (M3U8_Segments s ! i)"
      by (simp add: list_all_length nth_butlast)
    with \<open>\<not> sealed_segment (M3U8_Segments s ! i)\<close> show False by simp
  qed
  then have "i = length (M3U8_Segments s) - 1" by arith
  then have last: "M3U8_Segments s ! i = last (M3U8_Segments s)"
    using ne by (simp add: last_conv_nth)
  have op: "open_segment (last (M3U8_Segments s))"
    using w ne by (simp add: window_ok_def)
  have "k + 1 = length (parts (last (M3U8_Segments s)))"
  proof (rule ccontr)
    assume "k + 1 \<noteq> length (parts (last (M3U8_Segments s)))"
    with k last have "k < length (butlast (parts (last (M3U8_Segments s))))" by simp
    then have "isCompleted (parts (last (M3U8_Segments s)) ! k)"
      using op by (simp add: open_segment_def list_all_length nth_butlast)
    with o last show False by simp
  qed
  with il show ?thesis by simp
qed

lemma pending_fulfilled:
  assumes "pending cb m j s"
  shows "isFulfilledPartial (int m) (int j) s = Some False"
proof -
  have w: "window_ok s" and ne: "M3U8_Segments s \<noteq> []"
    and m: "m + 1 = M3U8_End_Sequence_Number s"
    and j: "j + 1 = length (parts (last (M3U8_Segments s)))"
    using assms by (simp_all add: pending_def)
  have e: "M3U8_End_Sequence_Number s = M3U8_Begin_Sequence_Number s + length (M3U8_Segments s)"
    by (rule window_ok_end [OF w])
  obtain n where len: "length (M3U8_Segments s) = Suc n"
    using ne by (cases "M3U8_Segments s") auto
  have idx: "nat (int m - int (M3U8_Begin_Sequence_Number s)) = length (M3U8_Segments s) - 1"
    using m e len by simp
  have rng: "inRangeSegment (int m) s"
    using m e len by (simp add: inRangeSegment_def)
  have seg: "M3U8_Segments s ! (length (M3U8_Segments s) - Suc 0) = last (M3U8_Segments s)"
    using ne by (simp add: last_conv_nth)
  have op: "open_segment (last (M3U8_Segments s))"
    using w ne by (simp add: window_ok_def)
  have ne2: "parts (last (M3U8_Segments s)) \<noteq> []" using op by (simp add: open_segment_def)
  have "j = length (parts (last (M3U8_Segments s))) - 1" using j by arith
  then have "parts (last (M3U8_Segments s)) ! j = last (parts (last (M3U8_Segments s)))"
    by (simp add: last_conv_nth [OF ne2])
  with op have "\<not> isCompleted (parts (last (M3U8_Segments s)) ! j)"
    by (simp add: open_segment_def)
  then show ?thesis
    using rng j by (simp add: isFulfilledPartial_def M3U8_Get_Partial_total [OF w] idx seg)
qed

lemma delivered_fulfilled:
  assumes "delivered cb m j s"
  shows "isFulfilledPartial (int m) (int j) s = Some True"
proof -
  have w: "window_ok s" using assms by (simp add: delivered_def)
  let ?i = "nat (int m - int (M3U8_Begin_Sequence_Number s))"
  show ?thesis
  proof (cases "inRangeSegment (int m) s \<and> j < length (parts (M3U8_Segments s ! ?i))")
    case False
    then show ?thesis
      by (auto simp add: isFulfilledPartial_def M3U8_Get_Partial_total [OF w])
  next
    case True
    then have i: "?i < length (M3U8_Segments s)" using inRange_index [OF w] by blast
    have b: "M3U8_Begin_Sequence_Number s \<le> m"
      using True by (simp add: inRangeSegment_def split: if_splits)
    have "isCompleted (parts (M3U8_Segments s ! ?i) ! j)"
    proof (rule ccontr)
      assume "\<not> isCompleted (parts (M3U8_Segments s ! ?i) ! j)"
      from open_partial_is_last [OF w i _ this] True
      have "?i + 1 = length (M3U8_Segments s)" "j + 1 = length (parts (last (M3U8_Segments s)))"
        by simp_all
      moreover have "m + 1 = M3U8_End_Sequence_Number s"
        using calculation(1) b window_ok_end [OF w] by (simp add: nat_diff_distrib')
      ultimately show False
        using assms i by (auto simp add: delivered_def)
    qed
    then show ?thesis
      using True by (simp add: isFulfilledPartial_def M3U8_Get_Partial_total [OF w])
  qed
qed

lemma all_callbacks_register_partial:
  assumes "i < length (M3U8_Segments s)" "k < length (parts (M3U8_Segments s ! i))"
  shows "count_list (all_callbacks (register_partial i k cb s)) cb
         = count_list (all_callbacks s) cb + 1"
proof -
  have p: "\<And>ps :: PartialSegment list. k < length ps \<Longrightarrow>
        count_list (concat (map complete_callbacks (ps[k := addCallback cb (ps ! k)]))) cb
        = count_list (concat (map complete_callbacks ps)) cb + 1"
  proof -
    fix ps :: "PartialSegment list"
    show "k < length ps \<Longrightarrow>
        count_list (concat (map complete_callbacks (ps[k := addCallback cb (ps ! k)]))) cb
        = count_list (concat (map complete_callbacks ps)) cb + 1"
      by (induction ps arbitrary: k) (auto simp add: addCallback_def split: nat.splits)
  qed
  have q: "\<And>xs :: Segment list. i < length xs \<Longrightarrow> k < length (parts (xs ! i)) \<Longrightarrow>
        count_list (concat (map segment_callbacks
           (xs[i := (xs ! i)\<lparr>parts := (parts (xs ! i))[k := addCallback cb (parts (xs ! i) ! k)]\<rparr>]))) cb
        = count_list (concat (map segment_callbacks xs)) cb + 1"
  proof -
    fix xs :: "Segment list"
    show "i < length xs \<Longrightarrow> k < length (parts (xs ! i)) \<Longrightarrow>
        count_list (concat (map segment_callbacks
           (xs[i := (xs ! i)\<lparr>parts := (parts (xs ! i))[k := addCallback cb (parts (xs ! i) ! k)]\<rparr>]))) cb
        = count_list (concat (map segment_callbacks xs)) cb + 1"
      by (induction xs arbitrary: i) (auto simp add: segment_callbacks_def p split: nat.splits)
  qed
  show ?thesis
    using q [OF assms] by (simp add: all_callbacks_def register_partial_def)
qed

lemma last_update_at_last: "i + 1 = length xs \<Longrightarrow> last (xs[i := y]) = y"
  by (cases xs rule: rev_cases) (auto simp add: list_update_append)

lemma pending_after_registration:
  assumes w: "window_ok s"
    and fresh: "cb \<notin> set (fired s)" "cb \<notin> set (all_callbacks s)"
    and i: "i + 1 = length (M3U8_Segments s)"
    and j: "j + 1 = length (parts (last (M3U8_Segments s)))"
    and m: "m = M3U8_Begin_Sequence_Number s + i"
  shows "pending cb m j (register_partial i j cb s)"
proof -
  let ?s1 = "register_partial i j cb s"
  have ne: "M3U8_Segments s \<noteq> []" using i by auto
  have "i = length (M3U8_Segments s) - 1" using i by arith
  then have seg: "M3U8_Segments s ! i = last (M3U8_Segments s)"
    using ne by (simp add: last_conv_nth)
  have il: "i < length (M3U8_Segments s)" using i by arith
  have jl: "j < length (parts (M3U8_Segments s ! i))" using j seg by simp
  have ne2: "parts (last (M3U8_Segments s)) \<noteq> []" using j by auto
  have last1: "last (M3U8_Segments ?s1)
               = (last (M3U8_Segments s))\<lparr>parts := (parts (last (M3U8_Segments s)))
                    [j := addCallback cb (parts (last (M3U8_Segments s)) ! j)]\<rparr>"
    using last_update_at_last [OF i] by (simp add: register_partial_def seg)
  have lastp: "last (parts (last (M3U8_Segments ?s1)))
               = addCallback cb (parts (last (M3U8_Segments s)) ! j)"
    using last_update_at_last [OF j] by (simp add: last1)
  have "window_ok ?s1" by (rule window_ok_register_partial [OF w])
  moreover have "m + 1 = M3U8_End_Sequence_Number ?s1"
    using window_ok_end [OF w] m i by (simp add: register_partial_def)
  moreover have "M3U8_Segments ?s1 \<noteq> []" using ne by (simp add: register_partial_def)
  moreover have "j + 1 = length (parts (last (M3U8_Segments ?s1)))"
    using j by (simp add: last1)
  moreover have "count_list (fired ?s1) cb = 0"
    using fresh(1) by (simp add: register_partial_def)
  moreover have "cb \<in> set (complete_callbacks (last (parts (last (M3U8_Segments ?s1)))))"
    by (simp add: lastp addCallback_def)
  moreover have "count_list (all_callbacks ?s1) cb = 1"
    using all_callbacks_register_partial [OF il jl, of cb] fresh(2) by simp
  ultimately show ?thesis by (simp add: pending_def)
qed

text \<open>
  Claim C10. A callback registered on an in-range partial that is still open is invoked
  exactly once, when that partial is sealed, and never again. Callbacks are identifiers in the
  model, so the registration is followed by its identifier: \<open>cb\<close> is registered nowhere and
  has not been invoked before, and the later calls register other callbacks only. Then the
  registration succeeds, every later run of calls returns, and after it \<open>cb\<close> has been
  invoked once if the partial is no longer open (sealed, or evicted after its seal) and not at
  all if it still is. As this holds after every run of later calls, the invocation happens in
  the step that seals the partial, and no later seal, eviction or registration repeats it.
\<close>
theorem callback_fires_once:
  assumes reach: "run X calls (new_TSFragmenter options) = Some s"
    and fresh: "cb \<notin> set (fired s)" "cb \<notin> set (all_callbacks s)"
    and opn: "isFulfilledPartial msn part s = Some False"
    and later: "\<forall>c \<in> set later. cb \<notin> set (call_callbacks c)"
  shows "\<exists>s1. addPartialCallback msn part cb s = Some (True, s1) \<and>
           (\<exists>s2. run X later s1 = Some s2 \<and>
                 count_list (fired s2) cb
                   = (if isFulfilledPartial msn part s2 = Some True then 1 else 0))"
proof -
  have w: "window_ok s" by (rule run_window_ok [OF reach])
  let ?i = "nat (msn - int (M3U8_Begin_Sequence_Number s))"
  have r: "inRangeSegment msn s" "0 \<le> part"
    "part < int (length (parts (M3U8_Segments s ! ?i)))"
    "\<not> isCompleted (parts (M3U8_Segments s ! ?i) ! nat part)"
    using opn by (auto simp add: isFulfilledPartial_def M3U8_Get_Partial_total [OF w] split: if_splits)
  have il: "?i < length (M3U8_Segments s)" by (rule inRange_index [OF w r(1)])
  have kl: "nat part < length (parts (M3U8_Segments s ! ?i))" using r(2,3) by simp
  from open_partial_is_last [OF w il kl r(4)]
  have last: "?i + 1 = length (M3U8_Segments s)"
    "nat part + 1 = length (parts (last (M3U8_Segments s)))" by simp_all
  have b: "int (M3U8_Begin_Sequence_Number s) \<le> msn"
    using r(1) by (simp add: inRangeSegment_def split: if_splits)
  then have m: "nat msn = M3U8_Begin_Sequence_Number s + ?i" by simp
  have ints: "int (nat msn) = msn" "int (nat part) = part" using b r(2) by simp_all
  let ?s1 = "register_partial ?i (nat part) cb s"
  have reg: "addPartialCallback msn part cb s = Some (True, ?s1)"
    using r(1,2,3) by (simp add: addPartialCallback_total [OF w])
  have "pending cb (nat msn) (nat part) ?s1"
    by (rule pending_after_registration [OF w fresh last m])
  then have t: "tracked cb (nat msn) (nat part) ?s1" by (simp add: tracked_def)
  have "\<exists>s2. run X later ?s1 = Some s2 \<and> tracked cb (nat msn) (nat part) s2"
  proof (rule run_keeps [where P = "\<lambda>c. c \<noteq> cb", OF preserved_tracked _ _ _ t])
    show "\<forall>c\<in>set later. \<forall>c' \<in> set (call_callbacks c). c' \<noteq> cb"
      using later by auto
  qed (simp_all add: tracked_register_segment tracked_register_partial)
  then obtain s2 where s2: "run X later ?s1 = Some s2" "tracked cb (nat msn) (nat part) s2"
    by blast
  have "count_list (fired s2) cb = (if isFulfilledPartial msn part s2 = Some True then 1 else 0)"
  proof (cases "pending cb (nat msn) (nat part) s2")
    case True
    from pending_fulfilled [OF True] have "isFulfilledPartial msn part s2 = Some False"
      unfolding ints .
    moreover have "count_list (fired s2) cb = 0" using True by (simp add: pending_def)
    ultimately show ?thesis by simp
  next
    case False
    then have d: "delivered cb (nat msn) (nat part) s2" using s2(2) by (simp add: tracked_def)
    from delivered_fulfilled [OF d] have "isFulfilledPartial msn part s2 = Some True"
      unfolding ints .
    moreover have "count_list (fired s2) cb = 1" using d by (simp add: delivered_def)
    ultimately show ?thesis by simp
  qed
  with reg s2(1) show ?thesis by blast
qed

lemma first_segment_fresh:
  "map_option (\<lambda>s. (fired s, all_callbacks s, isFulfilledPartial 0 0 s))
     (run X0 first_segment (new_TSFragmenter options0))
   = Some ([], [], Some False)"
  by code_simp

lemma after_registration_state:
  "Option.bind (run X0 first_segment (new_TSFragmenter options0))
     (\<lambda>s. Option.bind (addPartialCallback 0 0 7 s)
        (\<lambda>r. map_option (\<lambda>s2. (isFulfilledPartial 0 0 s2, fired s2))
               (run X0 after_registration (snd r))))
   = Some (Some True, [7, 8, 9])"
  by code_simp

theorem callback_fires_once_witness:
  "\<exists>s. run X0 first_segment (new_TSFragmenter options0) = Some s \<and>
       7 \<notin> set (fired s) \<and> 7 \<notin> set (all_callbacks s) \<and>
       isFulfilledPartial 0 0 s = Some False \<and>
       (\<forall>c \<in> set after_registration. 7 \<notin> set (call_callbacks c)) \<and>
       (\<exists>s1. addPartialCallback 0 0 7 s = Some (True, s1) \<and>
          (\<exists>s2. run X0 after_registration s1 = Some s2 \<and>
                isFulfilledPartial 0 0 s2 = Some True \<and> count_list (fired s2) 7 = 1))"
proof -
  from count_ok_run [of X0 first_segment options0] obtain s
    where s: "run X0 first_segment (new_TSFragmenter options0) = Some s" by blast
  have q: "7 \<notin> set (fired s)" "7 \<notin> set (all_callbacks s)" "isFulfilledPartial 0 0 s = Some False"
    using first_segment_fresh s by simp_all
  have l: "\<forall>c \<in> set after_registration. 7 \<notin> set (call_callbacks c)"
    by (simp add: after_registration_def)
  from callback_fires_once [OF s q l] obtain s1 s2
    where c: "addPartialCallback 0 0 7 s = Some (True, s1)"
      "run X0 after_registration s1 = Some s2"
      "count_list (fired s2) 7 = (if isFulfilledPartial 0 0 s2 = Some True then 1 else 0)"
    by blast
  have "isFulfilledPartial 0 0 s2 = Some True"
    using after_registration_state s c(1,2) by simp
  with s q l c show ?thesis by auto
qed

end
